theory Spec2Isabelle
  imports Main
begin

section \<open>QuizCraft: the quiz parser, the scoring loop and the session state of app.py\<close>

text \<open>
  The program is one Streamlit script, \<^verbatim>\<open>app.py\<close>. The script is executed from top to
  bottom once per user interaction; the four fields of \<^verbatim>\<open>st.session_state\<close> survive
  from one execution to the next. The model below follows the script section by section.

  Python strings are modelled as \<^typ>\<open>string\<close>: one \<^typ>\<open>char\<close> per code point, which
  covers every text whose code points are below 256. Python exceptions are values of the
  type \<open>error\<close>; a function that can raise returns \<open>error + 'a\<close> with \<open>Inl\<close> for the
  exception.

  The completion service and the widgets of the user-interface framework are not part of
  the script. A call of the service is represented by what it answers, carried by the
  user action that triggers the call; the prompt texts, which only the service reads, and
  the loading of the API key before the first section are left out. The output of the
  script (headings, the rendered questions, the analysis) is modelled only as far as the
  score section computes it.
\<close>

subsection \<open>Exceptions and checked list access\<close>

datatype error = IndexError | ValueError | GenerationError

text \<open>
  \<^verbatim>\<open>xs[i]\<close> for a Python list: a negative index counts from the end, and an index outside
  \<open>-len(xs) .. len(xs) - 1\<close> raises IndexError.
\<close>

definition getitem :: "'a list \<Rightarrow> int \<Rightarrow> error + 'a" where
  "getitem xs i =
     (if 0 \<le> i \<and> i < int (length xs) then Inr (xs ! nat i)
      else if i < 0 \<and> - int (length xs) \<le> i then Inr (xs ! nat (int (length xs) + i))
      else Inl IndexError)"

text \<open>
  \<^verbatim>\<open>xs[i] = v\<close> for an index produced by \<^verbatim>\<open>enumerate\<close> (never negative): IndexError
  when the index is not below the length.
\<close>

definition setitem :: "'a list \<Rightarrow> nat \<Rightarrow> 'a \<Rightarrow> error + 'a list" where
  "setitem xs i v = (if i < length xs then Inr (xs[i := v]) else Inl IndexError)"

subsection \<open>String primitives\<close>

text \<open>
  \<^verbatim>\<open>str.isspace\<close> on one character, for the code points below 256: tab, line feed,
  vertical tab, form feed, carriage return (9 to 13), the separators 28 to 31, the space
  (32), NEL (133) and the no-break space (160).
\<close>

definition is_space :: "char \<Rightarrow> bool" where
  "is_space c =
     (let n = (of_char c :: nat)
      in (9 \<le> n \<and> n \<le> 13) \<or> (28 \<le> n \<and> n \<le> 32) \<or> n = 133 \<or> n = 160)"

text \<open>\<^verbatim>\<open>s.strip()\<close>: whitespace removed at both ends.\<close>

definition strip :: "string \<Rightarrow> string" where
  "strip s = rev (dropWhile is_space (rev (dropWhile is_space s)))"

text \<open>
  \<^verbatim>\<open>s.split(sep)\<close> for a separator of one character: the pieces between the
  separators, empty pieces kept, so the result is never empty
  (\<^verbatim>\<open>"".split("\n") == [""]\<close>). A character that is not the separator joins the first
  piece of the rest; the rest always has a first piece, so the \<open>[]\<close> branch is never taken.
\<close>

fun split :: "char \<Rightarrow> string \<Rightarrow> string list" where
  "split sep [] = [[]]"
| "split sep (c # cs) =
     (if c = sep then [] # split sep cs
      else (case split sep cs of [] \<Rightarrow> [[c]] | w # ws \<Rightarrow> (c # w) # ws))"

text \<open>\<^verbatim>\<open>line.startswith("Q")\<close>.\<close>

definition startswith_Q :: "string \<Rightarrow> bool" where
  "startswith_Q line = (case line of [] \<Rightarrow> False | c # _ \<Rightarrow> c = CHR ''Q'')"

subsection \<open>Questions and the parser\<close>

text \<open>The dictionary \<^verbatim>\<open>{"q": q, "options": opts, "answer": ans}\<close> built by the parser.\<close>

record question =
  q :: string
  options :: "string list"
  answer :: string

text \<open>
  \<^verbatim>\<open>lines[i+5].split(":")[-1].strip()\<close>: the last piece always exists, because
  \<open>split\<close> never returns the empty list.
\<close>

definition extract_answer :: "string \<Rightarrow> string" where
  "extract_answer line = strip (last (split CHR '':'' line))"

text \<open>
  The \<^verbatim>\<open>while i < len(lines)\<close> loop of \<^verbatim>\<open>parse_questions\<close>, with the cursor \<open>i\<close> and
  the list \<open>questions\<close> built so far. The five reads after a header line are checked one
  after the other, in the order the script evaluates them; the first one out of range
  raises IndexError and the function returns no list.
\<close>

function parse_loop :: "string list \<Rightarrow> nat \<Rightarrow> question list \<Rightarrow> error + question list" where
  "parse_loop lines i questions =
     (if i < length lines then
        (if startswith_Q (lines ! i) then
           (case getitem lines (int i + 1) of Inl e \<Rightarrow> Inl e | Inr o1 \<Rightarrow>
           (case getitem lines (int i + 2) of Inl e \<Rightarrow> Inl e | Inr o2 \<Rightarrow>
           (case getitem lines (int i + 3) of Inl e \<Rightarrow> Inl e | Inr o3 \<Rightarrow>
           (case getitem lines (int i + 4) of Inl e \<Rightarrow> Inl e | Inr o4 \<Rightarrow>
           (case getitem lines (int i + 5) of Inl e \<Rightarrow> Inl e | Inr al \<Rightarrow>
              parse_loop lines (i + 6)
                (questions @ [\<lparr>q = lines ! i, options = [o1, o2, o3, o4],
                               answer = extract_answer al\<rparr>]))))))
         else parse_loop lines (i + 1) questions)
      else Inr questions)"
  by pat_completeness auto
termination
  by (relation "measure (\<lambda>(lines, i, questions). length lines - i)") auto

declare parse_loop.simps [simp del]

definition parse_questions :: "string \<Rightarrow> error + question list" where
  "parse_questions raw_text = parse_loop (split CHR 0x0A (strip raw_text)) 0 []"

subsection \<open>The scoring loop\<close>

text \<open>
  \<^verbatim>\<open>ord(s)\<close>: the code point of a string of exactly one character; TypeError (here
  \<open>None\<close>, since the only call is inside a bare \<^verbatim>\<open>except\<close>) for any other length.
\<close>

definition ord :: "string \<Rightarrow> int option" where
  "ord s = (case s of [c] \<Rightarrow> Some (of_char c) | _ \<Rightarrow> None)"

text \<open>
  The \<^verbatim>\<open>try\<close> block of the score loop: \<^verbatim>\<open>correct_index = ord(q["answer"]) - ord("a")\<close>
  and \<^verbatim>\<open>correct_option = q["options"][correct_index]\<close>, where the list access is
  Python's, negative indices included. Whatever is raised is caught:
  \<^verbatim>\<open>correct_option = "Unknown"\<close>, \<^verbatim>\<open>correct_index = None\<close>.
  The result is the pair \<open>(correct_option, correct_index)\<close>.
\<close>

definition correct_of :: "question \<Rightarrow> string \<times> int option" where
  "correct_of qn =
     (case ord (answer qn) of
        None \<Rightarrow> (''Unknown'', None)
      | Some n \<Rightarrow>
          (let correct_index = n - of_char CHR ''a''
           in case getitem (options qn) correct_index of
                Inl e \<Rightarrow> (''Unknown'', None)
              | Inr correct_option \<Rightarrow> (correct_option, Some correct_index)))"

text \<open>
  \<^verbatim>\<open>is_correct = (correct_index is not None) and (user_ans == correct_option)\<close>, for the
  stored answer \<open>user_ans\<close> (\<open>None\<close> when nothing is selected).
\<close>

definition is_correct :: "question \<Rightarrow> string option \<Rightarrow> bool" where
  "is_correct qn user_ans =
     (snd (correct_of qn) \<noteq> None \<and> user_ans = Some (fst (correct_of qn)))"

text \<open>
  One entry of \<^verbatim>\<open>results\<close>. The field \<open>result\<close> is the truth value that selects between
  the two marker texts of the script.
\<close>

record result_row =
  q_num :: nat
  question :: string
  your_answer :: string
  correct_answer :: string
  result :: bool

text \<open>\<^verbatim>\<open>user_ans or "Not answered"\<close>: \<open>None\<close> and the empty string are both falsy.\<close>

definition your_answer_of :: "string option \<Rightarrow> string" where
  "your_answer_of user_ans =
     (case user_ans of None \<Rightarrow> ''Not answered''
      | Some u \<Rightarrow> if u = [] then ''Not answered'' else u)"

text \<open>
  The loop \<^verbatim>\<open>for idx, q in enumerate(st.session_state.questions)\<close> of the score section,
  over the remaining pairs, with the running \<open>score\<close> and \<open>results\<close>. The read
  \<^verbatim>\<open>st.session_state.user_answers[idx]\<close> stands outside the \<^verbatim>\<open>try\<close> block, so its
  IndexError ends the loop.
\<close>

fun score_loop ::
  "(nat \<times> question) list \<Rightarrow> string option list \<Rightarrow> nat \<Rightarrow> result_row list
     \<Rightarrow> error + (nat \<times> result_row list)" where
  "score_loop [] user_answers score results = Inr (score, results)"
| "score_loop ((idx, qn) # rest) user_answers score results =
     (case getitem user_answers (int idx) of
        Inl e \<Rightarrow> Inl e
      | Inr user_ans \<Rightarrow>
          score_loop rest user_answers
            (if is_correct qn user_ans then score + 1 else score)
            (results @ [\<lparr>q_num = idx + 1, question = drop 3 (q qn),
               your_answer = your_answer_of user_ans,
               correct_answer = fst (correct_of qn),
               result = is_correct qn user_ans\<rparr>]))"

text \<open>Decimal digits of a natural number, as \<^verbatim>\<open>str\<close> prints it inside the f-string.\<close>

fun str_nat :: "nat \<Rightarrow> string" where
  "str_nat n =
     (if n < 10 then [char_of (48 + n)]
      else str_nat (n div 10) @ [char_of (48 + n mod 10)])"

declare str_nat.simps [simp del]

text \<open>
  The text of \<^verbatim>\<open>st.success(f"... You scored {score} / 10")\<close>, without the emoji and the
  space that precede it in the script (the emoji is outside the modelled characters).
\<close>

definition score_message :: "nat \<Rightarrow> string" where
  "score_message score = ''You scored '' @ str_nat score @ '' / 10''"

subsection \<open>The session state and one execution of the script\<close>

text \<open>The four fields of \<^verbatim>\<open>st.session_state\<close>; \<open>None\<close> is Python's \<^verbatim>\<open>None\<close>.\<close>

record session =
  questions :: "question list"
  user_answers :: "string option list"
  submitted :: bool
  hints :: "string option list"

text \<open>
  The four \<^verbatim>\<open>if ... not in st.session_state\<close> initialisations at the top of the script:
  the state of a fresh session.
\<close>

definition init_session :: session where
  "init_session =
     \<lparr>questions = [], user_answers = replicate 10 None, submitted = False,
      hints = replicate 10 None\<rparr>"

text \<open>The four assignments under the button \<^verbatim>\<open>Start New Quiz\<close>, in the script's order.\<close>

definition reset :: "session \<Rightarrow> session" where
  "reset s =
     (((s\<lparr>questions := []\<rparr>)\<lparr>user_answers := replicate 10 None\<rparr>)
        \<lparr>submitted := False\<rparr>)\<lparr>hints := replicate 10 None\<rparr>"

text \<open>
  What the user did to start an execution of the script. \<open>Rerun\<close> is an execution with no
  button pressed and no selection changed. \<open>Generate topic response\<close> presses
  \<^verbatim>\<open>Generate Quiz\<close> with the given text in the topic field; \<open>Hint idx response\<close> presses
  the hint button of question \<open>idx\<close>. In both, \<open>response\<close> is what the completion service
  answers: \<open>Some text\<close>, or \<open>None\<close> when the call raises. \<open>Select idx opt\<close> picks the
  option \<open>opt\<close> in the radio group of question \<open>idx\<close>.
\<close>

datatype event =
    Rerun
  | Generate string "string option"
  | Hint nat "string option"
  | Select nat string
  | Submit
  | StartNew

text \<open>
  An execution either runs to its end (\<open>Done\<close>) or stops at an uncaught exception
  (\<open>Raised\<close>); in both cases the assignments made so far stay in the session state.
\<close>

datatype outcome = Done session | Raised error session

fun state_of :: "outcome \<Rightarrow> session" where
  "state_of (Done s) = s"
| "state_of (Raised e s) = s"

text \<open>Sequencing of two parts of the script: an exception skips what follows.\<close>

fun and_then :: "outcome \<Rightarrow> (session \<Rightarrow> outcome) \<Rightarrow> outcome" where
  "and_then (Done s) f = f s"
| "and_then (Raised e s) f = Raised e s"

text \<open>
  The section \<^verbatim>\<open>if not st.session_state.questions and not st.session_state.submitted\<close>:
  \<^verbatim>\<open>if st.button("Generate Quiz") and topic\<close> calls the completion service and stores
  what \<^verbatim>\<open>parse_questions\<close> returns. An exception of the call or of the parser leaves the
  state as it was.
\<close>

definition setup_section :: "event \<Rightarrow> session \<Rightarrow> outcome" where
  "setup_section ev s =
     (if questions s = [] \<and> \<not> submitted s then
        (case ev of
           Generate topic response \<Rightarrow>
             (if topic \<noteq> [] then
                (case response of
                   None \<Rightarrow> Raised GenerationError s
                 | Some raw \<Rightarrow>
                     (case parse_questions raw of
                        Inl e \<Rightarrow> Raised e s
                      | Inr qs \<Rightarrow> Done (s\<lparr>questions := qs\<rparr>)))
              else Done s)
         | _ \<Rightarrow> Done s)
      else Done s)"

text \<open>
  The hint button of question \<open>idx\<close>: when it is the button pressed, the completion
  service is called and \<^verbatim>\<open>st.session_state.hints[idx] = response.text.strip()\<close>.
\<close>

definition hint_button :: "event \<Rightarrow> nat \<Rightarrow> session \<Rightarrow> outcome" where
  "hint_button ev idx s =
     (case ev of
        Hint j response \<Rightarrow>
          (if j = idx then
             (case response of
                None \<Rightarrow> Raised GenerationError s
              | Some text \<Rightarrow>
                  (case setitem (hints s) idx (Some (strip text)) of
                     Inl e \<Rightarrow> Raised e s
                   | Inr hs \<Rightarrow> Done (s\<lparr>hints := hs\<rparr>)))
           else Done s)
      | _ \<Rightarrow> Done s)"

text \<open>
  \<^verbatim>\<open>opts.index(x)\<close>: the first position of \<open>x\<close>, ValueError when \<open>x\<close> is not in the list.
\<close>

fun index_of :: "string list \<Rightarrow> string \<Rightarrow> error + nat" where
  "index_of [] x = Inl ValueError"
| "index_of (y # ys) x =
     (if y = x then Inr 0
      else (case index_of ys x of Inl e \<Rightarrow> Inl e | Inr n \<Rightarrow> Inr (n + 1)))"

text \<open>
  The radio group of question \<open>idx\<close>. The widget belongs to the user-interface framework;
  what the model takes from it: it returns the option the user picks in this execution
  (one of the options shown), and otherwise the option at its \<^verbatim>\<open>index\<close> argument, nothing
  when that argument is \<^verbatim>\<open>None\<close>.
\<close>

definition radio :: "event \<Rightarrow> nat \<Rightarrow> string list \<Rightarrow> nat option \<Rightarrow> string option" where
  "radio ev idx opts index =
     (case ev of
        Select j opt \<Rightarrow>
          (if j = idx \<and> opt \<in> set opts then Some opt
           else map_option (\<lambda>k. opts ! k) index)
      | _ \<Rightarrow> map_option (\<lambda>k. opts ! k) index)"

text \<open>
  The loop \<^verbatim>\<open>for idx, q in enumerate(st.session_state.questions)\<close> of the quiz section,
  over the remaining pairs: the hint button, then the radio group with
  \<^verbatim>\<open>index = None if user_answers[idx] is None else q["options"].index(user_answers[idx])\<close>,
  then \<^verbatim>\<open>st.session_state.user_answers[idx] = selected_option\<close>, then the read of
  \<^verbatim>\<open>st.session_state.hints[idx]\<close> that decides whether a hint is shown.
\<close>

fun display_loop :: "event \<Rightarrow> (nat \<times> question) list \<Rightarrow> session \<Rightarrow> outcome" where
  "display_loop ev [] s = Done s"
| "display_loop ev ((idx, qn) # rest) s =
     and_then (hint_button ev idx s) (\<lambda>s1.
       (case getitem (user_answers s1) (int idx) of
          Inl e \<Rightarrow> Raised e s1
        | Inr stored \<Rightarrow>
            (case (case stored of None \<Rightarrow> Inr None
                   | Some u \<Rightarrow> map_sum id Some (index_of (options qn) u)) of
               Inl e \<Rightarrow> Raised e s1
             | Inr index \<Rightarrow>
                 (case setitem (user_answers s1) idx (radio ev idx (options qn) index) of
                    Inl e \<Rightarrow> Raised e s1
                  | Inr ua \<Rightarrow>
                      (case getitem (hints s1) (int idx) of
                         Inl e \<Rightarrow> Raised e (s1\<lparr>user_answers := ua\<rparr>)
                       | Inr h \<Rightarrow> display_loop ev rest (s1\<lparr>user_answers := ua\<rparr>))))))"

text \<open>
  The section \<^verbatim>\<open>if st.session_state.questions and not st.session_state.submitted\<close>: the
  loop, then \<^verbatim>\<open>if st.button("Submit Quiz"): st.session_state.submitted = True\<close>.
\<close>

definition quiz_section :: "event \<Rightarrow> session \<Rightarrow> outcome" where
  "quiz_section ev s =
     (if questions s \<noteq> [] \<and> \<not> submitted s then
        and_then (display_loop ev (enumerate 0 (questions s)) s) (\<lambda>s1.
          Done (if ev = Submit then s1\<lparr>submitted := True\<rparr> else s1))
      else Done s)"

text \<open>
  The section \<^verbatim>\<open>if st.session_state.submitted\<close>: the score loop, the score line and the
  analysis (output only), then the button \<^verbatim>\<open>Start New Quiz\<close>.
\<close>

definition score_section :: "event \<Rightarrow> session \<Rightarrow> outcome" where
  "score_section ev s =
     (if submitted s then
        (case score_loop (enumerate 0 (questions s)) (user_answers s) 0 [] of
           Inl e \<Rightarrow> Raised e s
         | Inr r \<Rightarrow> Done (if ev = StartNew then reset s else s))
      else Done s)"

text \<open>One execution of the script: the three sections in the script's order.\<close>

definition run :: "event \<Rightarrow> session \<Rightarrow> outcome" where
  "run ev s = and_then (and_then (setup_section ev s) (quiz_section ev)) (score_section ev)"

text \<open>
  The states a session goes through: the state before each execution of a list of user
  actions, and the state after the last one.
\<close>

fun run_all :: "event list \<Rightarrow> session \<Rightarrow> session list" where
  "run_all [] s = [s]"
| "run_all (ev # evs) s = s # run_all evs (state_of (run ev s))"

text \<open>What the score section shows for a session: the score, its line, and the rows.\<close>

definition score_report :: "session \<Rightarrow> error + (nat \<times> string \<times> result_row list)" where
  "score_report s =
     (case score_loop (enumerate 0 (questions s)) (user_answers s) 0 [] of
        Inl e \<Rightarrow> Inl e
      | Inr (score, results) \<Rightarrow> Inr (score, score_message score, results))"

subsection \<open>Example inputs\<close>

text \<open>The completion text of the specification's example, and the question it describes.\<close>

definition example_raw :: string where
  "example_raw = ''Q1. What is 2+2?\<newline>a) 3\<newline>b) 4\<newline>c) 5\<newline>d) 6\<newline>Answer: b''"

definition example_question :: question where
  "example_question =
     \<lparr>q = ''Q1. What is 2+2?'', options = [''a) 3'', ''b) 4'', ''c) 5'', ''d) 6''],
      answer = ''b''\<rparr>"

text \<open>The session right after a quiz of one question has been generated.\<close>

definition generated_example :: session where
  "generated_example = state_of (run (Generate ''math'' (Some example_raw)) init_session)"

text \<open>
  A submitted session: the quiz of the example, one hint requested, the right option
  selected, then submitted.
\<close>

definition submitted_example :: session where
  "submitted_example =
     \<lparr>questions = [example_question],
      user_answers = [Some ''b) 4'', None, None, None, None, None, None, None, None, None],
      submitted = True,
      hints = [Some ''think'', None, None, None, None, None, None, None, None, None]\<rparr>"

subsection \<open>Notions used in the statements\<close>

text \<open>The state \<open>Active\<close> of the specification: questions present, not submitted.\<close>

definition active :: "session \<Rightarrow> bool" where
  "active s = (questions s \<noteq> [] \<and> \<not> submitted s)"

text \<open>The session of the example before it is submitted.\<close>

definition answered_example :: session where
  "answered_example = submitted_example\<lparr>submitted := False\<rparr>"

text \<open>
  Every stored answer belongs to a question of the quiz and is one of its options: what
  the radio groups can put into \<open>user_answers\<close>.
\<close>

definition stored_ok :: "session \<Rightarrow> bool" where
  "stored_ok s =
     list_all (\<lambda>i. case user_answers s ! i of None \<Rightarrow> True
                   | Some u \<Rightarrow> i < length (questions s) \<and> u \<in> set (options (questions s ! i)))
       [0..<length (user_answers s)]"

text \<open>
  The invariant of the session state: ten slots of each kind, stored answers that are
  options of their questions, and no more questions than answer slots once submitted.
\<close>

definition session_inv :: "session \<Rightarrow> bool" where
  "session_inv s =
     (length (user_answers s) = 10 \<and> length (hints s) = 10 \<and> stored_ok s \<and>
      (if submitted s then length (questions s) \<le> length (user_answers s) else True))"

text \<open>A completion with eleven question blocks, and the session after it is generated.\<close>

definition eleven_raw :: string where
  "eleven_raw = concat (replicate 11 (example_raw @ ''\<newline>''))"

definition eleven_session :: session where
  "eleven_session = state_of (run (Generate ''math'' (Some eleven_raw)) init_session)"

text \<open>
  The cursor of the parser's loop: \<open>scan lines i j\<close> holds when the loop, with its cursor
  at \<open>i\<close>, comes to have its cursor at \<open>j\<close> (after skipping lines that do not start
  with \<open>Q\<close> and consuming complete blocks of six lines).
\<close>

function scan :: "string list \<Rightarrow> nat \<Rightarrow> nat \<Rightarrow> bool" where
  "scan lines i j =
     (if i = j then True
      else if i < length lines then
        (if startswith_Q (lines ! i) then i + 5 < length lines \<and> scan lines (i + 6) j
         else scan lines (i + 1) j)
      else False)"
  by pat_completeness auto
termination
  by (relation "measure (\<lambda>(lines, i, j). length lines - i)") auto

declare scan.simps [simp del]

text \<open>
  Line \<open>j\<close> starts with \<open>Q\<close> and fewer than five lines remain after it.
\<close>

definition truncated_header :: "string list \<Rightarrow> nat \<Rightarrow> bool" where
  "truncated_header lines j =
     (j < length lines \<and> startswith_Q (lines ! j) \<and> length lines - (j + 1) < 5)"

text \<open>
  A completion cut off inside its first block, and one in which a line starting with
  \<open>Q\<close> is the fourth option of a complete block.
\<close>

definition truncated_raw :: string where
  "truncated_raw = ''Q1. What is 2+2?\<newline>a) 3\<newline>b) 4''"

definition consumed_header_raw :: string where
  "consumed_header_raw = ''Q1\<newline>a\<newline>b\<newline>c\<newline>Qd\<newline>Answer: a''"

text \<open>A question whose answer field is a backquote, the character before \<open>a\<close>.\<close>

definition backquote_question :: question where
  "backquote_question =
     \<lparr>q = ''Q1. What is 2+2?'', options = [''a) 3'', ''b) 4'', ''c) 5'', ''d) 6''],
      answer = ''`''\<rparr>"

text \<open>
  A well-formed question block as the prompt asks for it: a header line that starts with
  \<open>Q\<close>, four option lines, and the answer line \<open>Answer: \<close> followed by one letter. No
  line contains a line feed. \<open>render\<close> is the completion made of the blocks' lines, joined
  by line feeds.
\<close>

record block =
  header_line :: string
  option_lines :: "string list"
  answer_letter :: char

definition is_letter :: "char \<Rightarrow> bool" where
  "is_letter c =
     (let n = (of_char c :: nat) in (65 \<le> n \<and> n \<le> 90) \<or> (97 \<le> n \<and> n \<le> 122))"

definition answer_line :: "block \<Rightarrow> string" where
  "answer_line b = ''Answer: '' @ [answer_letter b]"

definition block_lines :: "block \<Rightarrow> string list" where
  "block_lines b = header_line b # option_lines b @ [answer_line b]"

definition wf_block :: "block \<Rightarrow> bool" where
  "wf_block b =
     (startswith_Q (header_line b) \<and> CHR 0x0A \<notin> set (header_line b) \<and>
      length (option_lines b) = 4 \<and>
      list_all (\<lambda>l. CHR 0x0A \<notin> set l) (option_lines b) \<and> is_letter (answer_letter b))"

fun join_lines :: "string list \<Rightarrow> string" where
  "join_lines [] = []"
| "join_lines [l] = l"
| "join_lines (l # ls) = l @ CHR 0x0A # join_lines ls"

definition render :: "block list \<Rightarrow> string" where
  "render bs = join_lines (concat (map block_lines bs))"

definition question_of :: "block \<Rightarrow> question" where
  "question_of b =
     \<lparr>q = header_line b, options = option_lines b, answer = [answer_letter b]\<rparr>"

text \<open>Ten well-formed blocks.\<close>

definition ten_blocks :: "block list" where
  "ten_blocks =
     map (\<lambda>c. \<lparr>header_line = ''Q. Which letter comes next?'',
                option_lines = [''a) w'', ''b) x'', ''c) y'', ''d) z''], answer_letter = c\<rparr>)
       ''abcdabcdab''"

section \<open>Properties\<close>

subsection \<open>Basic facts about the primitives and the sections of the script\<close>

lemma getitem_nat:
  "getitem xs (int i) = (if i < length xs then Inr (xs ! i) else Inl IndexError)"
  by (simp add: getitem_def)

lemma index_of_Inr: "index_of ys x = Inr n \<Longrightarrow> n < length ys \<and> ys ! n = x"
  by (induction ys arbitrary: n) (auto split: if_splits sum.splits)

lemma index_of_mem: "x \<in> set ys \<Longrightarrow> \<exists>n. index_of ys x = Inr n"
  by (induction ys) auto

lemma reset_init: "reset s = init_session"
  by (simp add: reset_def init_session_def)

lemma hint_button_frame:
  "questions (state_of (hint_button ev idx s)) = questions s \<and>
   submitted (state_of (hint_button ev idx s)) = submitted s \<and>
   user_answers (state_of (hint_button ev idx s)) = user_answers s \<and>
   length (hints (state_of (hint_button ev idx s))) = length (hints s)"
  by (auto simp: hint_button_def setitem_def split: event.splits option.splits)

lemma display_loop_frame:
  "questions (state_of (display_loop ev xs s)) = questions s \<and>
   submitted (state_of (display_loop ev xs s)) = submitted s \<and>
   length (user_answers (state_of (display_loop ev xs s))) = length (user_answers s) \<and>
   length (hints (state_of (display_loop ev xs s))) = length (hints s)"
proof (induction xs arbitrary: s)
  case Nil
  show ?case by simp
next
  case (Cons x xs)
  obtain idx qn where x: "x = (idx, qn)" by (cases x)
  show ?case
    using hint_button_frame [of ev idx s]
    by (cases "hint_button ev idx s")
      (auto simp: x Cons.IH getitem_nat setitem_def split: option.splits sum.splits)
qed

lemma setup_section_frame:
  "user_answers (state_of (setup_section ev s)) = user_answers s \<and>
   hints (state_of (setup_section ev s)) = hints s \<and>
   submitted (state_of (setup_section ev s)) = submitted s"
  by (auto simp: setup_section_def split: event.splits option.splits sum.splits)

lemma setup_section_submitted: "submitted s \<Longrightarrow> setup_section ev s = Done s"
  by (simp add: setup_section_def)

lemma quiz_section_submitted: "submitted s \<Longrightarrow> quiz_section ev s = Done s"
  by (simp add: quiz_section_def)

lemma score_section_cases:
  "state_of (score_section ev s) = s \<or> state_of (score_section ev s) = init_session"
  by (auto simp: score_section_def reset_init split: sum.splits)

lemma run_submitted:
  "submitted s \<Longrightarrow> state_of (run ev s) = s \<or> state_of (run ev s) = init_session"
  using score_section_cases [of ev s]
  by (simp add: run_def setup_section_submitted quiz_section_submitted)

lemma quiz_section_frame:
  "questions (state_of (quiz_section ev s)) = questions s \<and>
   length (user_answers (state_of (quiz_section ev s))) = length (user_answers s) \<and>
   length (hints (state_of (quiz_section ev s))) = length (hints s)"
  using display_loop_frame [of ev "enumerate 0 (questions s)" s]
  by (cases "display_loop ev (enumerate 0 (questions s)) s") (auto simp: quiz_section_def)

lemma state_of_and_then:
  "state_of (and_then r f) = (case r of Done s \<Rightarrow> state_of (f s) | Raised e s \<Rightarrow> s)"
  by (cases r) auto

lemma and_then_pres:
  "P (state_of r) \<Longrightarrow> (\<And>t. P t \<Longrightarrow> P (state_of (f t))) \<Longrightarrow> P (state_of (and_then r f))"
  by (cases r) auto

lemma run_lengths:
  assumes "length (user_answers s) = 10 \<and> length (hints s) = 10"
  shows "length (user_answers (state_of (run ev s))) = 10 \<and>
         length (hints (state_of (run ev s))) = 10"
  unfolding run_def
proof (intro and_then_pres [where P = "\<lambda>t::session. length (user_answers t) = 10 \<and> length (hints t) = 10"])
  show "length (user_answers (state_of (setup_section ev s))) = 10 \<and>
        length (hints (state_of (setup_section ev s))) = 10"
    using assms setup_section_frame [of ev s] by simp
next
  fix t :: session assume "length (user_answers t) = 10 \<and> length (hints t) = 10"
  then show "length (user_answers (state_of (quiz_section ev t))) = 10 \<and>
             length (hints (state_of (quiz_section ev t))) = 10"
    using quiz_section_frame [of ev t] by simp
next
  fix t :: session assume "length (user_answers t) = 10 \<and> length (hints t) = 10"
  then show "length (user_answers (state_of (score_section ev t))) = 10 \<and>
             length (hints (state_of (score_section ev t))) = 10"
    using score_section_cases [of ev t] by (auto simp: init_session_def)
qed

lemma run_all_lengths:
  "length (user_answers s) = 10 \<and> length (hints s) = 10 \<Longrightarrow> t \<in> set (run_all evs s) \<Longrightarrow>
   length (user_answers t) = 10 \<and> length (hints t) = 10"
proof (induction evs arbitrary: s)
  case Nil
  then show ?case by simp
next
  case (Cons ev evs)
  from Cons.prems(2) have "t = s \<or> t \<in> set (run_all evs (state_of (run ev s)))" by simp
  then show ?case
  proof
    assume "t = s" with Cons.prems(1) show ?thesis by simp
  next
    assume "t \<in> set (run_all evs (state_of (run ev s)))"
    with Cons.IH [OF run_lengths [OF Cons.prems(1)]] show ?thesis .
  qed
qed

lemma parse_example: "parse_questions example_raw = Inr [example_question]"
  by code_simp

lemma score_loop_total:
  "\<forall>p \<in> set xs. fst p < length ua \<Longrightarrow> \<exists>r. score_loop xs ua sc rs = Inr r"
  by (induction xs arbitrary: sc rs) (auto simp: getitem_nat)

lemma enumerate_fst_bound: "p \<in> set (enumerate n xs) \<Longrightarrow> n \<le> fst p \<and> fst p < n + length xs"
  by (auto simp: in_set_enumerate_eq)

lemma score_section_StartNew:
  assumes "submitted s" "length (questions s) \<le> length (user_answers s)"
  shows "score_section StartNew s = Done init_session"
proof -
  have "\<forall>p \<in> set (enumerate 0 (questions s)). fst p < length (user_answers s)"
    using assms(2) enumerate_fst_bound [of _ 0 "questions s"] by fastforce
  from score_loop_total [OF this, of 0 "[]"] show ?thesis
    using assms(1) by (auto simp: score_section_def reset_init)
qed

lemma run_StartNew_submitted:
  assumes "submitted s" "length (questions s) \<le> length (user_answers s)"
  shows "run StartNew s = Done init_session"
  using assms
  by (simp add: run_def setup_section_submitted quiz_section_submitted score_section_StartNew)

lemma run_StartNew_init: "run StartNew init_session = Done init_session"
  by (simp add: run_def setup_section_def quiz_section_def score_section_def init_session_def)

lemma run_all_StartNew_init:
  "run_all (replicate n StartNew) init_session = replicate (Suc n) init_session"
  by (induction n) (simp_all add: run_StartNew_init)

lemma funpow_reset: "(reset ^^ Suc n) s = reset s"
  by (induction n) (simp_all add: reset_init)

lemma generated_example_eq:
  "generated_example = init_session\<lparr>questions := [example_question]\<rparr>"
  by code_simp

lemma submitted_example_reached:
  "run_all [Generate ''math'' (Some example_raw), Hint 0 (Some '' think ''),
            Select 0 ''b) 4'', Submit] init_session ! 4 = submitted_example"
  by code_simp


subsection \<open>The slots for answers and hints\<close>

text \<open>
  Claim C5, as the code has it: in every state a session can reach from its initial
  state, whatever the user does and whatever the completion service answers,
  \<open>user_answers\<close> and \<open>hints\<close> have exactly ten entries each; their length does not
  follow the number of parsed questions.
\<close>

theorem session_slots_always_ten:
  "t \<in> set (run_all evs init_session) \<Longrightarrow>
   length (user_answers t) = 10 \<and> length (hints t) = 10"
  by (rule run_all_lengths [of init_session]) (simp_all add: init_session_def)

theorem session_slots_always_ten_witness:
  "generated_example \<in> set (run_all [Generate ''math'' (Some example_raw)] init_session) \<and>
   length (questions generated_example) = 1 \<and>
   length (user_answers generated_example) = 10 \<and> length (hints generated_example) = 10"
proof -
  have h: "generated_example \<in> set (run_all [Generate ''math'' (Some example_raw)] init_session)"
    by (simp add: generated_example_def)
  have "length (questions generated_example) = 1"
    by (simp add: generated_example_eq)
  with h session_slots_always_ten [OF h] show ?thesis by simp
qed


text \<open>
  After a generation request whose completion holds one question block, the session has
  one question and ten slots of each kind: the lengths differ.
\<close>

theorem slots_differ_from_questions_counterexample:
  "generated_example \<in> set (run_all [Generate ''math'' (Some example_raw)] init_session) \<and>
   length (user_answers generated_example) \<noteq> length (questions generated_example) \<and>
   length (hints generated_example) \<noteq> length (questions generated_example)"
proof -
  have h: "generated_example \<in> set (run_all [Generate ''math'' (Some example_raw)] init_session)"
    by (simp add: generated_example_def)
  have l: "length (user_answers generated_example) \<noteq> length (questions generated_example) \<and>
           length (hints generated_example) \<noteq> length (questions generated_example)"
    by (simp add: generated_example_eq init_session_def)
  from h l show ?thesis by (rule conjI)
qed


subsection \<open>Reset\<close>

text \<open>
  Claim C7: the reset assignments turn every session state into the initial state, and
  doing them again changes nothing. As a user action: pressing \<open>Start New Quiz\<close> in a
  submitted session (whose questions all have an answer slot, so that the score loop
  before the button runs through) ends in the initial state, and so does every further
  press.
\<close>

theorem reset_restores_setup_state:
  "reset s = init_session \<and> (reset ^^ Suc n) s = reset s \<and>
   (submitted s \<and> length (questions s) \<le> length (user_answers s) \<longrightarrow>
      run StartNew s = Done init_session \<and>
      tl (run_all (replicate (Suc n) StartNew) s) = replicate (Suc n) init_session)"
  using funpow_reset [of n s]
  by (simp add: reset_init run_StartNew_submitted run_all_StartNew_init del: funpow.simps)

theorem reset_restores_setup_state_witness:
  "submitted submitted_example \<and>
   length (questions submitted_example) \<le> length (user_answers submitted_example) \<and>
   reset submitted_example = init_session \<and>
   (reset ^^ 3) submitted_example = reset submitted_example \<and>
   run StartNew submitted_example = Done init_session \<and>
   tl (run_all [StartNew, StartNew, StartNew] submitted_example) =
     [init_session, init_session, init_session]"
proof -
  have h: "submitted submitted_example \<and>
           length (questions submitted_example) \<le> length (user_answers submitted_example)"
    by (simp add: submitted_example_def)
  have r: "replicate (Suc 2) x = [x, x, x]" for x :: 'a
    by (simp add: numeral_2_eq_2)
  have f: "(reset ^^ 3) = (reset ^^ Suc 2)" by (simp add: numeral_3_eq_3 numeral_2_eq_2)
  show ?thesis
    using h reset_restores_setup_state [of submitted_example 2]
    unfolding r f by blast
qed

lemma run_all_0: "run_all evs s ! 0 = s"
  by (cases evs) simp_all

lemma not_active_init: "\<not> active init_session"
  by (simp add: active_def init_session_def)

lemma and_then_Done: "and_then r f = Done t \<Longrightarrow> \<exists>u. r = Done u \<and> f u = Done t"
  by (cases r) auto

lemma score_section_Submit: "score_section Submit s = Done t \<Longrightarrow> t = s"
  by (auto simp: score_section_def split: if_splits sum.splits)

lemma run_Submit_active:
  assumes "run Submit s = Done s'" "active s"
  shows "submitted s' \<and> questions s' = questions s"
proof -
  from assms(2) have su: "setup_section Submit s = Done s"
    by (simp add: setup_section_def active_def)
  from assms(1) obtain u where u: "quiz_section Submit s = Done u" "score_section Submit u = Done s'"
    unfolding run_def su by (auto dest: and_then_Done)
  from u(1) assms(2) obtain v where v: "display_loop Submit (enumerate 0 (questions s)) s = Done v"
    "u = v\<lparr>submitted := True\<rparr>"
    by (auto simp: quiz_section_def active_def dest!: and_then_Done)
  from display_loop_frame [of Submit "enumerate 0 (questions s)" s] v(1)
  have "questions v = questions s" by simp
  with v(2) score_section_Submit [OF u(2)] show ?thesis by simp
qed

subsection \<open>Submission is left only through reset\<close>

text \<open>
  Claim C9: pressing \<open>Submit Quiz\<close> in an active session whose execution runs to its end
  sets the submitted flag and keeps the questions. From a submitted session, whatever the
  user does next: if some later state is active again, then an earlier state of the trace
  is the initial state, and every state before that one is the submitted session itself.
\<close>

theorem active_again_only_after_reset:
  "(active s0 \<and> run Submit s0 = Done s \<longrightarrow> submitted s \<and> questions s = questions s0) \<and>
   (submitted s \<and> k < length (run_all evs s) \<and> active (run_all evs s ! k) \<longrightarrow>
      (\<exists>j<k. run_all evs s ! j = init_session \<and> (\<forall>i<j. run_all evs s ! i = s)))"
proof -
  have "submitted s \<Longrightarrow> k < length (run_all evs s) \<Longrightarrow> active (run_all evs s ! k) \<Longrightarrow>
        \<exists>j<k. run_all evs s ! j = init_session \<and> (\<forall>i<j. run_all evs s ! i = s)"
  proof (induction evs arbitrary: k)
    case Nil
    then show ?case by (simp add: active_def)
  next
    case (Cons ev evs)
    show ?case
    proof (cases k)
      case 0
      with Cons.prems show ?thesis by (simp add: active_def)
    next
      case (Suc k')
      let ?s1 = "state_of (run ev s)"
      from Cons.prems Suc have k': "k' < length (run_all evs ?s1)"
        and act: "active (run_all evs ?s1 ! k')" by simp_all
      from run_submitted [OF Cons.prems(1), of ev] show ?thesis
      proof
        assume same: "?s1 = s"
        from Cons.IH [OF Cons.prems(1)] k' act same
        obtain j where j: "j < k'" "run_all evs s ! j = init_session"
          "\<forall>i<j. run_all evs s ! i = s" by auto
        have "\<forall>i<Suc j. run_all (ev # evs) s ! i = s"
        proof (intro allI impI)
          fix i assume "i < Suc j"
          with j(3) same show "run_all (ev # evs) s ! i = s" by (cases i) simp_all
        qed
        with j(1,2) same Suc
        have "Suc j < k \<and> run_all (ev # evs) s ! Suc j = init_session \<and>
              (\<forall>i<Suc j. run_all (ev # evs) s ! i = s)" by simp
        then show ?thesis by blast
      next
        assume init: "?s1 = init_session"
        have "k' \<noteq> 0"
        proof
          assume "k' = 0"
          with act have "active ?s1" by (simp add: run_all_0)
          with init not_active_init show False by simp
        qed
        then have "Suc 0 < k \<and> run_all (ev # evs) s ! Suc 0 = init_session \<and>
                   (\<forall>i<Suc 0. run_all (ev # evs) s ! i = s)"
          using Suc init by (simp add: run_all_0)
        then show ?thesis by blast
      qed
    qed
  qed
  with run_Submit_active [of s0 s] show ?thesis by blast
qed

theorem active_again_only_after_reset_witness:
  "active answered_example \<and> run Submit answered_example = Done submitted_example \<and>
   submitted submitted_example \<and>
   questions submitted_example = questions answered_example \<and>
   3 < length (run_all [Rerun, StartNew, Generate ''math'' (Some example_raw)] submitted_example) \<and>
   active (run_all [Rerun, StartNew, Generate ''math'' (Some example_raw)] submitted_example ! 3) \<and>
   (\<exists>j<3. run_all [Rerun, StartNew, Generate ''math'' (Some example_raw)] submitted_example ! j
              = init_session \<and>
           (\<forall>i<j. run_all [Rerun, StartNew, Generate ''math'' (Some example_raw)]
                     submitted_example ! i = submitted_example))"
proof -
  let ?evs = "[Rerun, StartNew, Generate ''math'' (Some example_raw)]"
  have a: "active answered_example" by code_simp
  have r: "run Submit answered_example = Done submitted_example" by code_simp
  have s: "submitted submitted_example" by code_simp
  have l: "3 < length (run_all ?evs submitted_example)" by simp
  have k: "active (run_all ?evs submitted_example ! 3)" by code_simp
  from active_again_only_after_reset [of answered_example submitted_example 3 ?evs] a r s l k
  show ?thesis by blast
qed

subsection \<open>A hint request changes one hint slot\<close>

lemma radio_default:
  "\<forall>j opt. ev \<noteq> Select j opt \<Longrightarrow> radio ev idx opts index = map_option (\<lambda>k. opts ! k) index"
  by (cases ev) (auto simp: radio_def)

lemma radio_returns_stored:
  assumes "\<forall>j opt. ev \<noteq> Select j opt"
    and "(case stored of None \<Rightarrow> Inr None
          | Some u \<Rightarrow> map_sum id Some (index_of opts u)) = Inr index"
  shows "radio ev idx opts index = stored"
proof (cases stored)
  case None
  with assms show ?thesis by (auto simp: radio_default)
next
  case (Some u)
  with assms(2) obtain n where "index_of opts u = Inr n" "index = Some n"
    by (cases "index_of opts u") auto
  with index_of_Inr [of opts u n] Some assms(1) show ?thesis
    by (simp add: radio_default)
qed

lemma display_loop_keeps_answers:
  assumes "\<forall>j opt. ev \<noteq> Select j opt"
  shows "user_answers (state_of (display_loop ev xs s)) = user_answers s"
proof (induction xs arbitrary: s)
  case Nil
  show ?case by simp
next
  case (Cons x xs)
  obtain idx qn where x: "x = (idx, qn)" by (cases x)
  show ?case
    using hint_button_frame [of ev idx s] radio_returns_stored [OF assms, where opts = "options qn" and idx = idx]
    by (cases "hint_button ev idx s")
      (auto simp: x Cons.IH getitem_nat setitem_def list_update_same_conv
        split: sum.splits)
qed

lemma hint_button_other:
  "j \<noteq> i \<Longrightarrow> hints (state_of (hint_button (Hint i r) idx s)) ! j = hints s ! j"
  by (auto simp: hint_button_def setitem_def split: option.splits)

lemma display_loop_hints_other:
  assumes "j \<noteq> i"
  shows "hints (state_of (display_loop (Hint i r) xs s)) ! j = hints s ! j"
proof (induction xs arbitrary: s)
  case Nil
  show ?case by simp
next
  case (Cons x xs)
  obtain idx qn where x: "x = (idx, qn)" by (cases x)
  show ?case
    using hint_button_other [OF assms, of r idx s]
    by (cases "hint_button (Hint i r) idx s")
      (auto simp: x Cons.IH getitem_nat setitem_def split: option.splits sum.splits)
qed

lemma score_section_other: "ev \<noteq> StartNew \<Longrightarrow> state_of (score_section ev s) = s"
  by (auto simp: score_section_def split: sum.splits)

lemma setup_section_other: "\<forall>t r. ev \<noteq> Generate t r \<Longrightarrow> setup_section ev s = Done s"
  by (cases ev) (auto simp: setup_section_def)

lemma run_Hint_state:
  "state_of (run (Hint i r) s) =
     (if questions s \<noteq> [] \<and> \<not> submitted s
      then state_of (display_loop (Hint i r) (enumerate 0 (questions s)) s) else s)"
  by (cases "display_loop (Hint i r) (enumerate 0 (questions s)) s")
    (auto simp: run_def setup_section_other quiz_section_def score_section_other)


text \<open>
  Claim C10: an execution started by the hint button of question \<open>i\<close>, whether it runs to
  its end or stops at an exception, leaves the questions, the stored answers and the
  submitted flag as they were, keeps the number of hint slots, and leaves every hint slot
  other than \<open>i\<close> as it was. (The radio groups return the stored answers in such an
  execution, so the assignments to \<open>user_answers\<close> write back what is there.)
\<close>

theorem hint_request_frame:
  "questions (state_of (run (Hint i r) s)) = questions s \<and>
   user_answers (state_of (run (Hint i r) s)) = user_answers s \<and>
   submitted (state_of (run (Hint i r) s)) = submitted s \<and>
   length (hints (state_of (run (Hint i r) s))) = length (hints s) \<and>
   (\<forall>j. j \<noteq> i \<longrightarrow> hints (state_of (run (Hint i r) s)) ! j = hints s ! j)"
  using display_loop_frame [of "Hint i r" "enumerate 0 (questions s)" s]
    display_loop_keeps_answers [of "Hint i r" "enumerate 0 (questions s)" s]
    display_loop_hints_other [of _ i r "enumerate 0 (questions s)" s]
  by (simp add: run_Hint_state)

theorem hint_request_frame_witness:
  "questions (state_of (run (Hint 0 (Some ''try'')) answered_example)) = questions answered_example \<and>
   user_answers (state_of (run (Hint 0 (Some ''try'')) answered_example)) =
     user_answers answered_example \<and>
   submitted (state_of (run (Hint 0 (Some ''try'')) answered_example)) = submitted answered_example \<and>
   length (hints (state_of (run (Hint 0 (Some ''try'')) answered_example))) = 10 \<and>
   hints (state_of (run (Hint 0 (Some ''try'')) answered_example)) ! 0 = Some ''try'' \<and>
   (0::nat) \<noteq> 1 \<and>
   hints (state_of (run (Hint 0 (Some ''try'')) answered_example)) ! 1 = hints answered_example ! 1"
proof -
  have l: "length (hints answered_example) = 10"
    by (simp add: answered_example_def submitted_example_def)
  have h: "hints (state_of (run (Hint 0 (Some ''try'')) answered_example)) ! 0 = Some ''try''"
    by code_simp
  from hint_request_frame [of 0 "Some ''try''" answered_example] l h
  show ?thesis by simp
qed

subsection \<open>What holds in every reachable state\<close>

lemma stored_ok_iff:
  "stored_ok s = (\<forall>i<length (user_answers s). \<forall>u. user_answers s ! i = Some u \<longrightarrow>
      i < length (questions s) \<and> u \<in> set (options (questions s ! i)))"
  by (auto simp: stored_ok_def list_all_iff split: option.splits)

lemma stored_ok_cong:
  "user_answers t = user_answers s \<Longrightarrow> questions t = questions s \<Longrightarrow> stored_ok t = stored_ok s"
  by (simp add: stored_ok_iff)

lemma stored_ok_update:
  assumes "stored_ok s" "idx < length (questions s)"
    and "\<forall>u. v = Some u \<longrightarrow> u \<in> set (options (questions s ! idx))"
  shows "stored_ok (s\<lparr>user_answers := (user_answers s)[idx := v]\<rparr>)"
  unfolding stored_ok_iff
proof (intro allI impI)
  fix i u
  assume i: "i < length (user_answers (s\<lparr>user_answers := (user_answers s)[idx := v]\<rparr>))"
    and u: "user_answers (s\<lparr>user_answers := (user_answers s)[idx := v]\<rparr>) ! i = Some u"
  show "i < length (questions (s\<lparr>user_answers := (user_answers s)[idx := v]\<rparr>)) \<and>
        u \<in> set (options (questions (s\<lparr>user_answers := (user_answers s)[idx := v]\<rparr>) ! i))"
  proof (cases "i = idx")
    case True
    with i u assms(2,3) show ?thesis by simp
  next
    case False
    with i u assms(1) show ?thesis by (simp add: stored_ok_iff)
  qed
qed

lemma radio_in_options:
  assumes "(case stored of None \<Rightarrow> Inr None
            | Some u \<Rightarrow> map_sum id Some (index_of opts u)) = Inr index"
  shows "\<forall>u. radio ev idx opts index = Some u \<longrightarrow> u \<in> set opts"
proof -
  have d: "\<forall>u. map_option (\<lambda>k. opts ! k) index = Some u \<longrightarrow> u \<in> set opts"
  proof (cases stored)
    case None
    with assms show ?thesis by auto
  next
    case (Some u)
    with assms obtain n where "index_of opts u = Inr n" "index = Some n"
      by (cases "index_of opts u") auto
    with index_of_Inr [of opts u n] show ?thesis by auto
  qed
  show ?thesis
  proof (cases ev)
    case (Select j opt)
    with d show ?thesis by (simp add: radio_def)
  qed (use d in \<open>simp_all add: radio_def\<close>)
qed

lemma display_loop_Cons:
  "display_loop ev ((idx, qn) # rest) s =
     (case hint_button ev idx s of
        Raised e s1 \<Rightarrow> Raised e s1
      | Done s1 \<Rightarrow>
          if idx < length (user_answers s1) then
            (case (case user_answers s1 ! idx of None \<Rightarrow> Inr None
                   | Some u \<Rightarrow> map_sum id Some (index_of (options qn) u)) of
               Inl e \<Rightarrow> Raised e s1
             | Inr index \<Rightarrow>
                 if idx < length (hints s1)
                 then display_loop ev rest
                        (s1\<lparr>user_answers := (user_answers s1)[idx := radio ev idx (options qn) index]\<rparr>)
                 else Raised IndexError
                        (s1\<lparr>user_answers := (user_answers s1)[idx := radio ev idx (options qn) index]\<rparr>))
          else Raised IndexError s1)"
  by (cases "hint_button ev idx s") (simp_all add: getitem_nat setitem_def split: sum.splits)

lemma display_loop_stored_ok:
  "stored_ok s \<Longrightarrow> \<forall>p\<in>set xs. fst p < length (questions s) \<and> snd p = questions s ! fst p \<Longrightarrow>
   stored_ok (state_of (display_loop ev xs s))"
proof (induction xs arbitrary: s)
  case Nil
  then show ?case by simp
next
  case (Cons x xs)
  obtain idx qn where x: "x = (idx, qn)" by (cases x)
  from Cons.prems(2) have idx: "idx < length (questions s)" "qn = questions s ! idx"
    and rest: "\<forall>p\<in>set xs. fst p < length (questions s) \<and> snd p = questions s ! fst p"
    by (simp_all add: x)
  show ?case
  proof (cases "hint_button ev idx s")
    case (Raised e s1)
    with hint_button_frame [of ev idx s] Cons.prems(1) stored_ok_cong [of s1 s]
    show ?thesis by (simp add: x display_loop_Cons del: display_loop.simps)
  next
    case (Done s1)
    with hint_button_frame [of ev idx s] have fr: "questions s1 = questions s"
      "user_answers s1 = user_answers s" by simp_all
    with Cons.prems(1) stored_ok_cong [of s1 s] have ok1: "stored_ok s1" by simp
    show ?thesis
    proof (cases "idx < length (user_answers s1)")
      case False
      with ok1 show ?thesis by (simp add: x Done display_loop_Cons del: display_loop.simps)
    next
      case True
      show ?thesis
      proof (cases "case user_answers s1 ! idx of None \<Rightarrow> Inr None
                    | Some u \<Rightarrow> map_sum id Some (index_of (options qn) u)")
        case (Inl e)
        have "display_loop ev (x # xs) s = Raised e s1"
          unfolding x display_loop_Cons Done using True Inl by simp
        with ok1 show ?thesis by simp
      next
        case (Inr index)
        let ?s2 = "s1\<lparr>user_answers := (user_answers s1)[idx := radio ev idx (options qn) index]\<rparr>"
        have ok2: "stored_ok ?s2"
        proof (rule stored_ok_update [OF ok1])
          show "idx < length (questions s1)" using idx fr by simp
          show "\<forall>u. radio ev idx (options qn) index = Some u \<longrightarrow>
                  u \<in> set (options (questions s1 ! idx))"
            using radio_in_options [OF Inr, of ev idx] by (simp add: fr idx(2))
        qed
        have rest2: "\<forall>p\<in>set xs. fst p < length (questions ?s2) \<and> snd p = questions ?s2 ! fst p"
          using rest fr by simp
        have "display_loop ev (x # xs) s =
                (if idx < length (hints s1) then display_loop ev xs ?s2 else Raised IndexError ?s2)"
          unfolding x display_loop_Cons Done using True Inr by simp
        with Cons.IH [OF ok2 rest2] ok2 show ?thesis by simp
      qed
    qed
  qed
qed

lemma display_loop_Done_bound:
  "display_loop ev xs s = Done s' \<Longrightarrow> \<forall>p\<in>set xs. fst p < length (user_answers s)"
proof (induction xs arbitrary: s)
  case Nil
  show ?case by simp
next
  case (Cons x xs)
  obtain idx qn where x: "x = (idx, qn)" by (cases x)
  from Cons.prems obtain s1 where s1: "hint_button ev idx s = Done s1"
    by (cases "hint_button ev idx s") (simp_all add: x)
  with hint_button_frame [of ev idx s] have ua: "user_answers s1 = user_answers s" by simp
  from Cons.prems s1 ua have idx: "idx < length (user_answers s)"
    by (simp add: x getitem_nat split: if_splits)
  from Cons.prems s1 ua idx obtain s2 where s2: "display_loop ev xs s2 = Done s'"
    "length (user_answers s2) = length (user_answers s)"
    by (auto simp: x getitem_nat setitem_def split: sum.splits if_splits)
  from Cons.IH [OF s2(1)] s2(2) idx show ?case by (simp add: x)
qed

lemma nth_in_enumerate: "i < length xs \<Longrightarrow> (i, xs ! i) \<in> set (enumerate 0 xs)"
  by (simp add: in_set_enumerate_eq)

lemma enumerate_nth: "p \<in> set (enumerate 0 xs) \<Longrightarrow> fst p < length xs \<and> snd p = xs ! fst p"
  by (auto simp: in_set_enumerate_eq)

lemma session_inv_init: "session_inv init_session"
  by (simp add: session_inv_def init_session_def stored_ok_iff)

lemma setup_section_inv:
  assumes "session_inv s"
  shows "session_inv (state_of (setup_section ev s))"
proof (cases "state_of (setup_section ev s) = s")
  case True
  with assms show ?thesis by simp
next
  case False
  then obtain qs where qs: "state_of (setup_section ev s) = s\<lparr>questions := qs\<rparr>"
    and empty: "questions s = []" "\<not> submitted s"
    by (auto simp: setup_section_def split: if_splits event.splits option.splits sum.splits)
  from assms empty(1) have "\<forall>i<length (user_answers s). user_answers s ! i = None"
    by (auto simp: session_inv_def stored_ok_iff)
  then have "stored_ok (s\<lparr>questions := qs\<rparr>)" by (simp add: stored_ok_iff)
  with assms empty(2) show ?thesis by (simp add: qs session_inv_def)
qed

lemma quiz_section_inv:
  assumes "session_inv s"
  shows "session_inv (state_of (quiz_section ev s))"
proof (cases "questions s \<noteq> [] \<and> \<not> submitted s")
  case False
  with assms show ?thesis by (auto simp: quiz_section_def)
next
  case True
  let ?xs = "enumerate 0 (questions s)"
  let ?t = "state_of (display_loop ev ?xs s)"
  from assms have ok: "stored_ok s" by (simp add: session_inv_def)
  have fr: "questions ?t = questions s" "submitted ?t = submitted s"
    "length (user_answers ?t) = length (user_answers s)" "length (hints ?t) = length (hints s)"
    using display_loop_frame [of ev ?xs s] by simp_all
  have okt: "stored_ok ?t"
    using ok enumerate_nth [of _ "questions s"] by (intro display_loop_stored_ok) auto
  have invt: "session_inv ?t"
    using assms okt fr True by (simp add: session_inv_def)
  show ?thesis
  proof (cases "display_loop ev ?xs s")
    case (Raised e t)
    with invt True show ?thesis by (simp add: quiz_section_def)
  next
    case (Done t)
    have "length (questions s) \<le> length (user_answers s)"
    proof (rule ccontr)
      assume "\<not> length (questions s) \<le> length (user_answers s)"
      then have "length (user_answers s) < length (questions s)" by simp
      from nth_in_enumerate [OF this] display_loop_Done_bound [OF Done]
      show False by auto
    qed
    with invt Done fr True show ?thesis
      by (auto simp: quiz_section_def session_inv_def stored_ok_iff)
  qed
qed

lemma score_section_inv: "session_inv s \<Longrightarrow> session_inv (state_of (score_section ev s))"
  using score_section_cases [of ev s] session_inv_init by auto

lemma run_inv: "session_inv s \<Longrightarrow> session_inv (state_of (run ev s))"
  unfolding run_def
  by (intro and_then_pres [where P = session_inv] setup_section_inv quiz_section_inv
      score_section_inv)

lemma run_all_inv: "session_inv s \<Longrightarrow> t \<in> set (run_all evs s) \<Longrightarrow> session_inv t"
proof (induction evs arbitrary: s)
  case Nil
  then show ?case by simp
next
  case (Cons ev evs)
  from Cons.prems(2) have "t = s \<or> t \<in> set (run_all evs (state_of (run ev s)))" by simp
  with Cons.prems(1) Cons.IH [OF run_inv [OF Cons.prems(1)]] show ?case by auto
qed

lemma reachable_inv: "t \<in> set (run_all evs init_session) \<Longrightarrow> session_inv t"
  using run_all_inv [OF session_inv_init] .

subsection \<open>Two hint requests for the same question\<close>

lemma display_loop_Hint_step:
  assumes "idx < length (user_answers s)" "idx < length (hints s)"
    and "\<forall>u. user_answers s ! idx = Some u \<longrightarrow> u \<in> set (options qn)"
  shows "display_loop (Hint i (Some r)) ((idx, qn) # rest) s =
         display_loop (Hint i (Some r)) rest
           (if i = idx then s\<lparr>hints := (hints s)[idx := Some (strip r)]\<rparr> else s)"
proof -
  let ?ev = "Hint i (Some r)"
  let ?s1 = "if i = idx then s\<lparr>hints := (hints s)[idx := Some (strip r)]\<rparr> else s"
  have hb: "hint_button ?ev idx s = Done ?s1"
    using assms(2) by (simp add: hint_button_def setitem_def)
  have ua1: "user_answers ?s1 = user_answers s" and h1: "length (hints ?s1) = length (hints s)"
    by simp_all
  have "\<exists>index. (case user_answers s ! idx of None \<Rightarrow> Inr None
      | Some u \<Rightarrow> map_sum id Some (index_of (options qn) u)) = Inr index"
  proof (cases "user_answers s ! idx")
    case None
    then show ?thesis by simp
  next
    case (Some u)
    with assms(3) have "u \<in> set (options qn)" by simp
    from index_of_mem [OF this] Some show ?thesis by auto
  qed
  then obtain index where index:
    "(case user_answers s ! idx of None \<Rightarrow> Inr None
      | Some u \<Rightarrow> map_sum id Some (index_of (options qn) u)) = Inr index" ..
  have sel: "radio ?ev idx (options qn) index = user_answers s ! idx"
    using radio_returns_stored [OF _ index, of ?ev idx] by simp
  have same: "?s1\<lparr>user_answers := (user_answers s)[idx := user_answers s ! idx]\<rparr> = ?s1"
    by simp
  show ?thesis
    unfolding display_loop_Cons hb outcome.case ua1 h1 index sum.case sel same
    using assms(1,2) by simp
qed

lemma display_loop_Hint_state:
  assumes "length (hints s) = length (user_answers s)"
    and "\<forall>p \<in> set (enumerate n qs). \<forall>u. fst p < length (user_answers s) \<and>
           user_answers s ! fst p = Some u \<longrightarrow> u \<in> set (options (snd p))"
  shows "state_of (display_loop (Hint i (Some r)) (enumerate n qs) s) =
           (if n \<le> i \<and> i < n + length qs \<and> i < length (hints s)
            then s\<lparr>hints := (hints s)[i := Some (strip r)]\<rparr> else s)"
  using assms
proof (induction qs arbitrary: n s)
  case Nil
  show ?case by auto
next
  case (Cons qn qs)
  let ?ev = "Hint i (Some r)"
  show ?case
  proof (cases "n < length (user_answers s)")
    case False
    have "state_of (display_loop ?ev ((n, qn) # enumerate (Suc n) qs) s) = s"
      unfolding display_loop_Cons using False Cons.prems(1)
      by (auto simp: hint_button_def setitem_def)
    with False Cons.prems(1) show ?thesis by auto
  next
    case True
    let ?s1 = "if i = n then s\<lparr>hints := (hints s)[n := Some (strip r)]\<rparr> else s"
    have step: "display_loop ?ev (enumerate n (qn # qs)) s =
                display_loop ?ev (enumerate (Suc n) qs) ?s1"
      using True Cons.prems by (simp add: display_loop_Hint_step del: display_loop.simps)
    have l1: "length (hints ?s1) = length (user_answers ?s1)" using Cons.prems(1) by simp
    have v1: "\<forall>p \<in> set (enumerate (Suc n) qs). \<forall>u. fst p < length (user_answers ?s1) \<and>
                user_answers ?s1 ! fst p = Some u \<longrightarrow> u \<in> set (options (snd p))"
      using Cons.prems(2) by simp
    show ?thesis
      unfolding step Cons.IH [OF l1 v1] using True Cons.prems(1) by auto
  qed
qed

lemma display_loop_Hint_Done:
  assumes "n + length qs \<le> length (user_answers s)" "length (hints s) = length (user_answers s)"
    and "\<forall>p \<in> set (enumerate n qs). \<forall>u. fst p < length (user_answers s) \<and>
           user_answers s ! fst p = Some u \<longrightarrow> u \<in> set (options (snd p))"
  shows "\<exists>t. display_loop (Hint i (Some r)) (enumerate n qs) s = Done t"
  using assms
proof (induction qs arbitrary: n s)
  case Nil
  show ?case by simp
next
  case (Cons qn qs)
  let ?ev = "Hint i (Some r)"
  let ?s1 = "if i = n then s\<lparr>hints := (hints s)[n := Some (strip r)]\<rparr> else s"
  have step: "display_loop ?ev (enumerate n (qn # qs)) s =
              display_loop ?ev (enumerate (Suc n) qs) ?s1"
    using Cons.prems by (simp add: display_loop_Hint_step del: display_loop.simps)
  have b1: "Suc n + length qs \<le> length (user_answers ?s1)" using Cons.prems(1) by simp
  have l1: "length (hints ?s1) = length (user_answers ?s1)" using Cons.prems(2) by simp
  have v1: "\<forall>p \<in> set (enumerate (Suc n) qs). \<forall>u. fst p < length (user_answers ?s1) \<and>
              user_answers ?s1 ! fst p = Some u \<longrightarrow> u \<in> set (options (snd p))"
    using Cons.prems(3) by simp
  show ?case unfolding step by (rule Cons.IH [OF b1 l1 v1])
qed

lemma stored_ok_valid:
  assumes "stored_ok s"
  shows "\<forall>p \<in> set (enumerate 0 (questions s)). \<forall>u. fst p < length (user_answers s) \<and>
           user_answers s ! fst p = Some u \<longrightarrow> u \<in> set (options (snd p))"
proof (intro ballI allI impI)
  fix p u assume p: "p \<in> set (enumerate 0 (questions s))"
    and u: "fst p < length (user_answers s) \<and> user_answers s ! fst p = Some u"
  from enumerate_nth [OF p] have "snd p = questions s ! fst p" by simp
  with assms u show "u \<in> set (options (snd p))" by (simp add: stored_ok_iff)
qed

lemma run_Hint_state_eq:
  assumes "session_inv s" "\<not> submitted s" "i < length (questions s)" "i < 10"
  shows "state_of (run (Hint i (Some r)) s) = s\<lparr>hints := (hints s)[i := Some (strip r)]\<rparr>"
proof -
  from assms(1) have l: "length (hints s) = length (user_answers s)" "length (hints s) = 10"
    and ok: "stored_ok s" by (simp_all add: session_inv_def)
  from assms(3) have ne: "questions s \<noteq> []" by auto
  show ?thesis
    unfolding run_Hint_state display_loop_Hint_state [OF l(1) stored_ok_valid [OF ok]]
    using assms(2,3,4) ne l(2) by simp
qed

lemma run_Hint_Done:
  assumes "session_inv s" "\<not> submitted s" "questions s \<noteq> []" "length (questions s) \<le> 10"
  shows "\<exists>t. run (Hint i (Some r)) s = Done t"
proof -
  from assms(1) have l: "length (hints s) = length (user_answers s)" "length (user_answers s) = 10"
    and ok: "stored_ok s" by (simp_all add: session_inv_def)
  from assms(4) l(2) have b: "0 + length (questions s) \<le> length (user_answers s)" by simp
  from display_loop_Hint_Done [OF b l(1) stored_ok_valid [OF ok], of i r]
  obtain t where t: "display_loop (Hint i (Some r)) (enumerate 0 (questions s)) s = Done t" ..
  with display_loop_frame [of "Hint i (Some r)" "enumerate 0 (questions s)" s]
  have "\<not> submitted t" using assms(2) by simp
  with t assms(2,3) show ?thesis
    by (simp add: run_def setup_section_other quiz_section_def score_section_def)
qed

lemma session_inv_hints:
  "session_inv s \<Longrightarrow> session_inv (s\<lparr>hints := (hints s)[i := v]\<rparr>)"
  by (auto simp: session_inv_def stored_ok_iff split: if_splits)

lemma two_hints:
  assumes "session_inv s" "\<not> submitted s" "i < length (questions s)" "i < 10"
  shows "hints (state_of (run (Hint i (Some r1)) s)) ! i = Some (strip r1) \<and>
         hints (state_of (run (Hint i (Some r2)) (state_of (run (Hint i (Some r1)) s)))) ! i
           = Some (strip r2) \<and>
         state_of (run (Hint i (Some r2)) (state_of (run (Hint i (Some r1)) s)))
           = state_of (run (Hint i (Some r2)) s) \<and>
         (length (questions s) \<le> 10 \<longrightarrow>
            (\<exists>s1 s2. run (Hint i (Some r1)) s = Done s1 \<and> run (Hint i (Some r2)) s1 = Done s2))"
proof -
  let ?s1 = "s\<lparr>hints := (hints s)[i := Some (strip r1)]\<rparr>"
  let ?s2 = "s\<lparr>hints := (hints s)[i := Some (strip r2)]\<rparr>"
  from assms(1,4) have i: "i < length (hints s)" by (simp add: session_inv_def)
  have 1: "state_of (run (Hint i (Some r1)) s) = ?s1" using assms by (rule run_Hint_state_eq)
  have inv1: "session_inv ?s1" using assms(1) by (rule session_inv_hints)
  have "state_of (run (Hint i (Some r2)) ?s1) = ?s1\<lparr>hints := (hints ?s1)[i := Some (strip r2)]\<rparr>"
    using inv1 assms(2,3,4) by (intro run_Hint_state_eq) simp_all
  then have 2: "state_of (run (Hint i (Some r2)) ?s1) = ?s2" by simp
  have 3: "state_of (run (Hint i (Some r2)) s) = ?s2" using assms by (rule run_Hint_state_eq)
  have 4: "\<exists>s1 s2. run (Hint i (Some r1)) s = Done s1 \<and> run (Hint i (Some r2)) s1 = Done s2"
    if le: "length (questions s) \<le> 10"
  proof -
    from assms(3) have ne: "questions s \<noteq> []" by auto
    from run_Hint_Done [OF assms(1,2) ne le, of i r1] obtain t1
      where t1: "run (Hint i (Some r1)) s = Done t1" ..
    with 1 have t1_eq: "t1 = ?s1" by simp
    from run_Hint_Done [of ?s1 i r2] inv1 assms(2) ne le obtain t2
      where "run (Hint i (Some r2)) ?s1 = Done t2" by auto
    with t1 t1_eq show ?thesis by simp
  qed
  from 1 2 3 4 i show ?thesis by simp
qed

lemma eleven_session_eq:
  "eleven_session = init_session\<lparr>questions := replicate 11 example_question\<rparr>"
  by code_simp

lemma answered_example_reached:
  "answered_example \<in> set (run_all [Generate ''math'' (Some example_raw),
      Hint 0 (Some '' think ''), Select 0 ''b) 4''] init_session)"
  by code_simp

lemma eleven_hint: "run (Hint 10 (Some ''first'')) eleven_session = Raised IndexError eleven_session"
  by code_simp


text \<open>
  Claim C8, as the code has it: in a reachable session that is not submitted, for a
  question index \<open>i\<close> that has a hint slot (\<open>i < 10\<close>), a hint request stores the
  stripped response in \<open>hints[i]\<close>, a second request for the same index stores the second
  response there, and the state after both requests is the state after the second one
  alone. With at most ten questions both executions run to their end.
\<close>

theorem second_hint_overwrites_first:
  assumes "s \<in> set (run_all evs init_session)" "\<not> submitted s"
    "i < length (questions s)" "i < 10"
  shows "hints (state_of (run (Hint i (Some r1)) s)) ! i = Some (strip r1) \<and>
         hints (state_of (run (Hint i (Some r2)) (state_of (run (Hint i (Some r1)) s)))) ! i
           = Some (strip r2) \<and>
         state_of (run (Hint i (Some r2)) (state_of (run (Hint i (Some r1)) s)))
           = state_of (run (Hint i (Some r2)) s) \<and>
         (length (questions s) \<le> 10 \<longrightarrow>
            (\<exists>s1 s2. run (Hint i (Some r1)) s = Done s1 \<and> run (Hint i (Some r2)) s1 = Done s2))"
  using two_hints [OF reachable_inv [OF assms(1)] assms(2,3,4)] .

theorem second_hint_overwrites_first_witness:
  "answered_example \<in> set (run_all [Generate ''math'' (Some example_raw),
      Hint 0 (Some '' think ''), Select 0 ''b) 4''] init_session) \<and>
   \<not> submitted answered_example \<and> 0 < length (questions answered_example) \<and> (0::nat) < 10 \<and>
   hints (state_of (run (Hint 0 (Some '' one '')) answered_example)) ! 0 = Some ''one'' \<and>
   hints (state_of (run (Hint 0 (Some ''two''))
             (state_of (run (Hint 0 (Some '' one '')) answered_example)))) ! 0 = Some ''two'' \<and>
   state_of (run (Hint 0 (Some ''two'')) (state_of (run (Hint 0 (Some '' one '')) answered_example)))
     = state_of (run (Hint 0 (Some ''two'')) answered_example) \<and>
   length (questions answered_example) \<le> 10 \<and>
   (\<exists>s1 s2. run (Hint 0 (Some '' one '')) answered_example = Done s1 \<and>
            run (Hint 0 (Some ''two'')) s1 = Done s2)"
proof -
  have n: "\<not> submitted answered_example" "0 < length (questions answered_example)"
    "length (questions answered_example) \<le> 10"
    by (simp_all add: answered_example_def submitted_example_def)
  have z: "(0::nat) < 10" by simp
  have s: "strip '' one '' = ''one''" "strip ''two'' = ''two''" by code_simp+
  note c = second_hint_overwrites_first [OF answered_example_reached n(1,2) z,
      of "'' one ''" "''two''"]
  show ?thesis
    using c answered_example_reached n z unfolding s by blast
qed

text \<open>
  In the session with eleven questions the hint button of the eleventh (index 10) is
  reached by the display loop, but there is no slot \<open>hints[10]\<close>: each request stops at
  an IndexError and stores nothing.
\<close>

theorem hint_for_eleventh_question_counterexample:
  "eleven_session \<in> set (run_all [Generate ''math'' (Some eleven_raw)] init_session) \<and>
   \<not> submitted eleven_session \<and> 10 < length (questions eleven_session) \<and>
   run (Hint 10 (Some ''first'')) eleven_session = Raised IndexError eleven_session \<and>
   run (Hint 10 (Some ''second'')) eleven_session = Raised IndexError eleven_session \<and>
   getitem (hints eleven_session) 10 = Inl IndexError"
proof -
  have m: "eleven_session \<in> set (run_all [Generate ''math'' (Some eleven_raw)] init_session)"
    by (simp add: eleven_session_def)
  have r: "\<not> submitted eleven_session \<and> 10 < length (questions eleven_session) \<and>
   run (Hint 10 (Some ''first'')) eleven_session = Raised IndexError eleven_session \<and>
   run (Hint 10 (Some ''second'')) eleven_session = Raised IndexError eleven_session \<and>
   getitem (hints eleven_session) 10 = Inl IndexError"
    by code_simp
  from m r show ?thesis by (rule conjI)
qed

subsection \<open>The reported score\<close>

lemma score_loop_result:
  "\<forall>p \<in> set xs. fst p < length ua \<Longrightarrow>
   \<exists>rows. score_loop xs ua sc rs = Inr (sc + length (filter (\<lambda>p. is_correct (snd p) (ua ! fst p)) xs), rows) \<and>
          map result rows = map result rs @ map (\<lambda>p. is_correct (snd p) (ua ! fst p)) xs \<and>
          map q_num rows = map q_num rs @ map (\<lambda>p. fst p + 1) xs"
proof (induction xs arbitrary: sc rs)
  case Nil
  show ?case by simp
next
  case (Cons x xs)
  obtain idx qn where x: "x = (idx, qn)" by (cases x)
  from Cons.prems have idx: "idx < length ua" and rest: "\<forall>p \<in> set xs. fst p < length ua"
    by (simp_all add: x)
  show ?case
    using Cons.IH [OF rest, of "if is_correct qn (ua ! idx) then sc + 1 else sc"
        "rs @ [\<lparr>q_num = idx + 1, question = drop 3 (q qn),
               your_answer = your_answer_of (ua ! idx),
               correct_answer = fst (correct_of qn),
               result = is_correct qn (ua ! idx)\<rparr>]"] idx
    by (auto simp: x getitem_nat)
qed

lemma enumerate_as_map: "enumerate 0 xs = map (\<lambda>i. (i, xs ! i)) [0..<length xs]"
  by (rule nth_equalityI) (simp_all add: nth_enumerate_eq)

lemma score_report_result:
  assumes "length (questions s) \<le> length (user_answers s)"
  shows "\<exists>rows. score_report s =
           Inr (length (filter (\<lambda>i. is_correct (questions s ! i) (user_answers s ! i))
                          [0..<length (questions s)]),
                ''You scored '' @
                  str_nat (length (filter (\<lambda>i. is_correct (questions s ! i) (user_answers s ! i))
                                     [0..<length (questions s)])) @ '' / 10'',
                rows) \<and>
           map result rows = map (\<lambda>i. is_correct (questions s ! i) (user_answers s ! i))
                               [0..<length (questions s)] \<and>
           map q_num rows = [1..<length (questions s) + 1]"
proof -
  let ?xs = "enumerate 0 (questions s)"
  have b: "\<forall>p \<in> set ?xs. fst p < length (user_answers s)"
    using assms enumerate_fst_bound [of _ 0 "questions s"] by fastforce
  from score_loop_result [OF b, of 0 "[]"] obtain rows where
    r: "score_loop ?xs (user_answers s) 0 [] =
          Inr (length (filter (\<lambda>p. is_correct (snd p) (user_answers s ! fst p)) ?xs), rows)"
       "map result rows = map (\<lambda>p. is_correct (snd p) (user_answers s ! fst p)) ?xs"
       "map q_num rows = map (\<lambda>p. fst p + 1) ?xs"
    by auto
  have c: "length (filter (\<lambda>p. is_correct (snd p) (user_answers s ! fst p)) ?xs) =
           length (filter (\<lambda>i. is_correct (questions s ! i) (user_answers s ! i))
                     [0..<length (questions s)])"
    by (simp add: enumerate_as_map filter_map comp_def)
  have m: "map (\<lambda>p. is_correct (snd p) (user_answers s ! fst p)) ?xs =
           map (\<lambda>i. is_correct (questions s ! i) (user_answers s ! i)) [0..<length (questions s)]"
    by (simp add: enumerate_as_map comp_def)
  have n: "map (\<lambda>p. fst p + 1) ?xs = [1..<length (questions s) + 1]"
    by (simp add: enumerate_as_map comp_def map_Suc_upt)
  show ?thesis
    using r c m n by (simp add: score_report_def score_message_def)
qed

text \<open>
  Claim C6: in every submitted session a user can reach, the score section runs through;
  the score it reports is the number of question indices whose \<open>is_correct\<close> is true, one
  result row per question in order, and the score line ends in \<open>/ 10\<close> whatever the
  number of questions.
\<close>

theorem reported_score_counts_correct_answers:
  assumes "s \<in> set (run_all evs init_session)" "submitted s"
  shows "\<exists>rows. score_report s =
           Inr (length (filter (\<lambda>i. is_correct (questions s ! i) (user_answers s ! i))
                          [0..<length (questions s)]),
                ''You scored '' @
                  str_nat (length (filter (\<lambda>i. is_correct (questions s ! i) (user_answers s ! i))
                                     [0..<length (questions s)])) @ '' / 10'',
                rows) \<and>
           map result rows = map (\<lambda>i. is_correct (questions s ! i) (user_answers s ! i))
                               [0..<length (questions s)] \<and>
           map q_num rows = [1..<length (questions s) + 1]"
proof -
  from reachable_inv [OF assms(1)] assms(2)
  have "length (questions s) \<le> length (user_answers s)" by (simp add: session_inv_def)
  then show ?thesis by (rule score_report_result)
qed

theorem reported_score_counts_correct_answers_witness:
  "submitted_example \<in> set (run_all [Generate ''math'' (Some example_raw),
      Hint 0 (Some '' think ''), Select 0 ''b) 4'', Submit] init_session) \<and>
   submitted submitted_example \<and>
   length (questions submitted_example) = 1 \<and>
   score_report submitted_example =
     Inr (1, ''You scored 1 / 10'',
          [\<lparr>q_num = 1, question = '' What is 2+2?'', your_answer = ''b) 4'',
            correct_answer = ''b) 4'', result = True\<rparr>]) \<and>
   (\<exists>rows. score_report submitted_example =
           Inr (length (filter (\<lambda>i. is_correct (questions submitted_example ! i)
                                     (user_answers submitted_example ! i))
                          [0..<length (questions submitted_example)]),
                ''You scored '' @
                  str_nat (length (filter (\<lambda>i. is_correct (questions submitted_example ! i)
                                     (user_answers submitted_example ! i))
                                     [0..<length (questions submitted_example)])) @ '' / 10'',
                rows) \<and>
           map result rows = map (\<lambda>i. is_correct (questions submitted_example ! i)
                                     (user_answers submitted_example ! i))
                               [0..<length (questions submitted_example)] \<and>
           map q_num rows = [1..<length (questions submitted_example) + 1])"
proof -
  have m: "submitted_example \<in> set (run_all [Generate ''math'' (Some example_raw),
      Hint 0 (Some '' think ''), Select 0 ''b) 4'', Submit] init_session)"
    by code_simp
  have s: "submitted submitted_example" "length (questions submitted_example) = 1"
    by (simp_all add: submitted_example_def)
  have e: "score_report submitted_example =
     Inr (1, ''You scored 1 / 10'',
          [\<lparr>q_num = 1, question = '' What is 2+2?'', your_answer = ''b) 4'',
            correct_answer = ''b) 4'', result = True\<rparr>])"
    by code_simp
  from reported_score_counts_correct_answers [OF m s(1)] m s e
  show ?thesis by blast
qed

subsection \<open>The parser on truncated blocks\<close>

lemma getitem_add: "getitem xs (int i + int k) = (if i + k < length xs then Inr (xs ! (i + k)) else Inl IndexError)"
  using getitem_nat [of xs "i + k"] by simp

lemma parse_loop_header:
  assumes "i < length lines" "startswith_Q (lines ! i)"
  shows "parse_loop lines i acc =
     (if i + 5 < length lines
      then parse_loop lines (i + 6)
             (acc @ [\<lparr>q = lines ! i,
                      options = [lines ! (i + 1), lines ! (i + 2), lines ! (i + 3), lines ! (i + 4)],
                      answer = extract_answer (lines ! (i + 5))\<rparr>])
      else Inl IndexError)"
proof -
  have g: "getitem lines (int i + numeral k) =
      (if i + numeral k < length lines then Inr (lines ! (i + numeral k)) else Inl IndexError)" for k
    using getitem_add [of lines i "numeral k"] by simp
  have g1: "getitem lines (int i + 1) =
      (if i + 1 < length lines then Inr (lines ! (i + 1)) else Inl IndexError)"
    using getitem_add [of lines i 1] by simp
  show ?thesis
    by (subst parse_loop.simps) (simp add: assms g g1)
qed

lemma parse_loop_skip:
  assumes "i < length lines" "\<not> startswith_Q (lines ! i)"
  shows "parse_loop lines i acc = parse_loop lines (i + 1) acc"
  by (subst parse_loop.simps) (simp add: assms)

lemma parse_loop_end: "\<not> i < length lines \<Longrightarrow> parse_loop lines i acc = Inr acc"
  by (subst parse_loop.simps) simp

lemma parse_loop_fails_iff:
  "(parse_loop lines i acc = Inl IndexError) = (\<exists>j. scan lines i j \<and> truncated_header lines j)"
proof (induction lines i acc rule: parse_loop.induct)
  case (1 lines i questions)
  show ?case
  proof (cases "i < length lines")
    case False
    have "\<not> (scan lines i j \<and> truncated_header lines j)" for j
      using False by (subst scan.simps) (auto simp: truncated_header_def)
    with False show ?thesis by (simp add: parse_loop_end)
  next
    case True
    show ?thesis
    proof (cases "startswith_Q (lines ! i)")
      case notQ: False
      have s: "(scan lines i j \<and> truncated_header lines j) =
               (scan lines (i + 1) j \<and> truncated_header lines j)" for j
        using True notQ by (subst scan.simps) (auto simp: truncated_header_def)
      from "1.IH"(2) [OF True notQ] show ?thesis
        by (simp add: parse_loop_skip [OF True notQ] s)
    next
      case Q: True
      show ?thesis
      proof (cases "i + 5 < length lines")
        case short: False
        have "scan lines i i \<and> truncated_header lines i"
          using True Q short by (subst scan.simps) (auto simp: truncated_header_def)
        then have "\<exists>j. scan lines i j \<and> truncated_header lines j" by blast
        with short show ?thesis by (simp add: parse_loop_header [OF True Q])
      next
        case long: True
        have s: "(scan lines i j \<and> truncated_header lines j) =
                 (scan lines (i + 6) j \<and> truncated_header lines j)" for j
          using True Q long by (subst scan.simps) (auto simp: truncated_header_def)
        have g: "getitem lines (int i + 1) = Inr (lines ! (i + 1))"
          "getitem lines (int i + 2) = Inr (lines ! (i + 2))"
          "getitem lines (int i + 3) = Inr (lines ! (i + 3))"
          "getitem lines (int i + 4) = Inr (lines ! (i + 4))"
          "getitem lines (int i + 5) = Inr (lines ! (i + 5))"
          using long getitem_add [of lines i 1] getitem_add [of lines i 2]
            getitem_add [of lines i 3] getitem_add [of lines i 4] getitem_add [of lines i 5]
          by simp_all
        from "1.IH"(1) [OF True Q g] show ?thesis
          by (simp add: parse_loop_header [OF True Q] long s)
      qed
    qed
  qed
qed

lemma parse_loop_error: "parse_loop lines i acc = Inl e \<Longrightarrow> e = IndexError"
proof (induction lines i acc rule: parse_loop.induct)
  case (1 lines i questions)
  show ?case
  proof (cases "i < length lines")
    case False
    with "1.prems" show ?thesis by (simp add: parse_loop_end)
  next
    case True
    show ?thesis
    proof (cases "startswith_Q (lines ! i)")
      case notQ: False
      from "1.IH"(2) [OF True notQ] "1.prems" show ?thesis
        by (simp add: parse_loop_skip [OF True notQ])
    next
      case Q: True
      show ?thesis
      proof (cases "i + 5 < length lines")
        case short: False
        with "1.prems" show ?thesis by (simp add: parse_loop_header [OF True Q])
      next
        case long: True
        have g: "getitem lines (int i + 1) = Inr (lines ! (i + 1))"
          "getitem lines (int i + 2) = Inr (lines ! (i + 2))"
          "getitem lines (int i + 3) = Inr (lines ! (i + 3))"
          "getitem lines (int i + 4) = Inr (lines ! (i + 4))"
          "getitem lines (int i + 5) = Inr (lines ! (i + 5))"
          using long getitem_add [of lines i 1] getitem_add [of lines i 2]
            getitem_add [of lines i 3] getitem_add [of lines i 4] getitem_add [of lines i 5]
          by simp_all
        from "1.IH"(1) [OF True Q g] "1.prems" show ?thesis
          by (simp add: parse_loop_header [OF True Q] long)
      qed
    qed
  qed
qed

text \<open>
  Claim C1, as the code has it: the parser fails exactly when its cursor comes to a line
  that starts with \<open>Q\<close> with fewer than five lines after it, and then what is raised is
  the IndexError of the list access (the script defines no ParseError); it never fails
  in another way, and every access it makes is a checked one. A line starting with \<open>Q\<close>
  that was consumed as an option or answer line of an earlier block is no header.
\<close>

theorem truncated_block_raises_IndexError:
  "(parse_questions raw = Inl IndexError) =
     (\<exists>j. scan (split CHR 0x0A (strip raw)) 0 j \<and>
          truncated_header (split CHR 0x0A (strip raw)) j) \<and>
   (\<forall>e. parse_questions raw = Inl e \<longrightarrow> e = IndexError)"
  unfolding parse_questions_def
  using parse_loop_fails_iff [of "split CHR 0x0A (strip raw)" 0 "[]"]
    parse_loop_error [of "split CHR 0x0A (strip raw)" 0 "[]"]
  by blast

theorem truncated_block_raises_IndexError_witness:
  "split CHR 0x0A (strip truncated_raw) = [''Q1. What is 2+2?'', ''a) 3'', ''b) 4''] \<and>
   scan (split CHR 0x0A (strip truncated_raw)) 0 0 \<and>
   truncated_header (split CHR 0x0A (strip truncated_raw)) 0 \<and>
   parse_questions truncated_raw = Inl IndexError"
proof -
  have l: "split CHR 0x0A (strip truncated_raw) = [''Q1. What is 2+2?'', ''a) 3'', ''b) 4'']"
    by code_simp
  have s: "scan (split CHR 0x0A (strip truncated_raw)) 0 0" by code_simp
  have t: "truncated_header (split CHR 0x0A (strip truncated_raw)) 0" by code_simp
  from s t have "\<exists>j. scan (split CHR 0x0A (strip truncated_raw)) 0 j \<and>
          truncated_header (split CHR 0x0A (strip truncated_raw)) j" by blast
  with truncated_block_raises_IndexError [of truncated_raw]
  have "parse_questions truncated_raw = Inl IndexError" by blast
  with l s t show ?thesis by blast
qed

text \<open>
  A text whose fifth line starts with \<open>Q\<close> and has one line after it, and which parses
  to one question all the same, the line being the fourth option; and the truncated text,
  where the failure is an IndexError.
\<close>

theorem consumed_header_line_counterexample:
  "split CHR 0x0A (strip consumed_header_raw) = [''Q1'', ''a'', ''b'', ''c'', ''Qd'', ''Answer: a''] \<and>
   startswith_Q ''Qd'' \<and>
   truncated_header (split CHR 0x0A (strip consumed_header_raw)) 4 \<and>
   parse_questions consumed_header_raw =
     Inr [\<lparr>q = ''Q1'', options = [''a'', ''b'', ''c'', ''Qd''], answer = ''a''\<rparr>] \<and>
   parse_questions truncated_raw = Inl IndexError"
  by code_simp


subsection \<open>The correct option of a question\<close>

lemma correct_of_letter:
  assumes "answer qn = [c]" "c \<in> {CHR ''a'', CHR ''b'', CHR ''c'', CHR ''d''}"
    "length (options qn) = 4"
  shows "correct_of qn = (options qn ! nat (of_char c - of_char CHR ''a''),
                          Some (of_char c - of_char CHR ''a''))"
  using assms by (auto simp: correct_of_def ord_def getitem_def)

lemma is_correct_letter:
  assumes "answer qn = [c]" "c \<in> {CHR ''a'', CHR ''b'', CHR ''c'', CHR ''d''}"
    "length (options qn) = 4"
  shows "is_correct qn user_ans =
           (user_ans = Some (options qn ! nat (of_char c - of_char CHR ''a'')))"
  by (simp add: is_correct_def correct_of_letter [OF assms])

lemma correct_of_Unknown:
  "snd (correct_of qn) = None \<Longrightarrow> fst (correct_of qn) = ''Unknown'' \<and> \<not> is_correct qn user_ans"
  by (auto simp: correct_of_def is_correct_def Let_def split: option.splits sum.splits)

lemma correct_of_z:
  "answer qn = ''z'' \<Longrightarrow> length (options qn) \<le> 25 \<Longrightarrow>
   correct_of qn = (''Unknown'', None) \<and> \<not> is_correct qn user_ans"
  by (auto simp: correct_of_def is_correct_def ord_def getitem_def)

text \<open>The question with the backquote is what the parser makes of such an answer line.\<close>

lemma backquote_question_parsed:
  "parse_questions ''Q1. What is 2+2?\<newline>a) 3\<newline>b) 4\<newline>c) 5\<newline>d) 6\<newline>Answer: `''
     = Inr [backquote_question]"
  by code_simp

text \<open>
  Claim C2 at the answer field \<open>`\<close>: the code point before \<open>a\<close> gives the index
  \<open>-1\<close>, which Python's list access takes as the last option; a user who selected that
  option is scored correct although the answer field is none of a, b, c, d.
\<close>

theorem backquote_answer_is_scored_correct:
  "answer backquote_question = ''`'' \<and>
   ''`'' \<notin> {''a'', ''b'', ''c'', ''d''} \<and>
   is_correct backquote_question (Some ''d) 6'') = True"
  by (simp add: backquote_question_def is_correct_def correct_of_def ord_def getitem_def)

text \<open>
  Claim C4 at the same question: the answer field is not a letter in a-d, yet the correct
  option is the last option and the correct index is \<open>-1\<close>, not the sentinel.
\<close>

theorem backquote_answer_has_correct_option:
  "answer backquote_question = ''`'' \<and>
   correct_of backquote_question = (''d) 6'', Some (- 1))"
  by (simp add: backquote_question_def correct_of_def ord_def getitem_def)

subsection \<open>The parser on well-formed blocks\<close>

lemma split_not_Nil: "split sep s \<noteq> []"
  by (induction s) (auto split: list.splits)

lemma split_no_sep: "sep \<notin> set l \<Longrightarrow> split sep l = [l]"
  by (induction l) auto

lemma split_append_sep: "sep \<notin> set l \<Longrightarrow> split sep (l @ sep # rest) = l # split sep rest"
  by (induction l) auto

lemma split_join_lines:
  "ls \<noteq> [] \<Longrightarrow> \<forall>l \<in> set ls. CHR 0x0A \<notin> set l \<Longrightarrow> split CHR 0x0A (join_lines ls) = ls"
proof (induction ls rule: join_lines.induct)
  case 1
  then show ?case by simp
next
  case (2 l)
  then show ?case by (simp add: split_no_sep)
next
  case (3 l v va)
  then show ?case by (simp add: split_append_sep)
qed

lemma strip_id:
  assumes "s \<noteq> []" "\<not> is_space (hd s)" "\<not> is_space (last s)"
  shows "strip s = s"
proof -
  from assms(1,2) have 1: "dropWhile is_space s = s" by (cases s) auto
  from assms(1,3) have 2: "dropWhile is_space (rev s) = rev s"
    by (cases "rev s") (auto simp: last_rev [symmetric] simp del: last_rev)
  show ?thesis by (simp add: strip_def 1 2)
qed

lemma is_letter_not_space: "is_letter c \<Longrightarrow> \<not> is_space c"
  by (auto simp: is_letter_def is_space_def Let_def)

lemma is_letter_not_colon: "is_letter c \<Longrightarrow> c \<noteq> CHR '':''"
  by (auto simp: is_letter_def Let_def)

lemma is_letter_not_newline: "is_letter c \<Longrightarrow> c \<noteq> CHR 0x0A"
  by (auto simp: is_letter_def Let_def)

lemma not_space_Q: "\<not> is_space CHR ''Q''"
  by (simp add: is_space_def)

lemma extract_answer_line: "is_letter c \<Longrightarrow> extract_answer (''Answer: '' @ [c]) = [c]"
  using is_letter_not_space [of c] is_letter_not_colon [of c]
  by (simp add: extract_answer_def strip_def is_space_def)

lemma block_lines_expand:
  assumes "wf_block b"
  obtains o1 o2 o3 o4 where "option_lines b = [o1, o2, o3, o4]"
    "block_lines b = [header_line b, o1, o2, o3, o4, answer_line b]"
proof -
  from assms have "length (option_lines b) = 4" by (simp add: wf_block_def)
  then obtain o1 o2 o3 o4 where "option_lines b = [o1, o2, o3, o4]"
    by (auto simp: length_Suc_conv numeral_eq_Suc)
  then show ?thesis using that by (simp add: block_lines_def)
qed

lemma parse_loop_blocks:
  assumes "\<forall>b \<in> set bs. wf_block b"
  shows "parse_loop (pre @ concat (map block_lines bs)) (length pre) acc =
         Inr (acc @ map question_of bs)"
  using assms
proof (induction bs arbitrary: pre acc)
  case Nil
  show ?case by (simp add: parse_loop_end)
next
  case (Cons b bs)
  from Cons.prems have wf: "wf_block b" and rest: "\<forall>b \<in> set bs. wf_block b" by simp_all
  from wf obtain o1 o2 o3 o4 where o: "option_lines b = [o1, o2, o3, o4]"
    and bl: "block_lines b = [header_line b, o1, o2, o3, o4, answer_line b]"
    by (rule block_lines_expand)
  let ?rest = "concat (map block_lines bs)"
  let ?lines = "pre @ concat (map block_lines (b # bs))"
  have lines: "?lines = pre @ [header_line b, o1, o2, o3, o4, answer_line b] @ ?rest"
    by (simp add: bl)
  have n: "?lines ! (length pre + k) = ([header_line b, o1, o2, o3, o4, answer_line b] @ ?rest) ! k" for k
    unfolding lines by (rule nth_append_length_plus)
  have n0: "?lines ! length pre = header_line b" using n [of 0] by simp
  have nk: "?lines ! (length pre + 1) = o1" "?lines ! (length pre + 2) = o2"
    "?lines ! (length pre + 3) = o3" "?lines ! (length pre + 4) = o4"
    "?lines ! (length pre + 5) = answer_line b"
    using n [of 1] n [of 2] n [of 3] n [of 4] n [of 5] by simp_all
  have len: "length pre + 5 < length ?lines" "length pre < length ?lines"
    unfolding lines by simp_all
  have Q: "startswith_Q (?lines ! length pre)" unfolding n0 using wf by (simp add: wf_block_def)
  have ans: "extract_answer (answer_line b) = [answer_letter b]"
    unfolding answer_line_def using wf by (intro extract_answer_line) (simp add: wf_block_def)
  have step: "parse_loop ?lines (length pre) acc =
              parse_loop ?lines (length pre + 6) (acc @ [question_of b])"
    unfolding parse_loop_header [OF len(2) Q] n0 nk ans
    using len(1) by (simp add: question_of_def o)
  have again: "?lines = (pre @ block_lines b) @ ?rest" by simp
  have l6: "length pre + 6 = length (pre @ block_lines b)" by (simp add: bl)
  show ?case
    unfolding step unfolding again l6 Cons.IH [OF rest] by simp
qed

lemma hd_join_lines: "ls \<noteq> [] \<Longrightarrow> hd ls \<noteq> [] \<Longrightarrow> hd (join_lines ls) = hd (hd ls)"
  by (induction ls rule: join_lines.induct) auto

lemma join_lines_not_Nil: "ls \<noteq> [] \<Longrightarrow> last ls \<noteq> [] \<Longrightarrow> join_lines ls \<noteq> []"
  by (induction ls rule: join_lines.induct) auto

lemma last_join_lines: "ls \<noteq> [] \<Longrightarrow> last ls \<noteq> [] \<Longrightarrow> last (join_lines ls) = last (last ls)"
  by (induction ls rule: join_lines.induct) (auto simp: join_lines_not_Nil)

lemma block_lines_props:
  assumes "wf_block b"
  shows "block_lines b \<noteq> []" "hd (block_lines b) = header_line b" "header_line b \<noteq> []"
    "hd (header_line b) = CHR ''Q''" "last (block_lines b) = answer_line b"
    "last (answer_line b) = answer_letter b" "answer_line b \<noteq> []"
    "\<forall>l \<in> set (block_lines b). CHR 0x0A \<notin> set l"
  using assms is_letter_not_newline [of "answer_letter b"]
  by (auto simp: block_lines_def wf_block_def answer_line_def startswith_Q_def list_all_iff
      split: list.splits)

lemma render_lines:
  assumes "bs \<noteq> []" "\<forall>b \<in> set bs. wf_block b"
  shows "split CHR 0x0A (strip (render bs)) = concat (map block_lines bs)"
proof -
  let ?ls = "concat (map block_lines bs)"
  from assms obtain b bs' where bs: "bs = b # bs'" and wfb: "wf_block b" by (cases bs) auto
  from assms(1) obtain xs x where x: "bs = xs @ [x]" by (cases bs rule: rev_cases) auto
  with assms(2) have wfl: "wf_block x" by simp
  have ne: "?ls \<noteq> []" using block_lines_props(1) [OF wfb] by (simp add: bs)
  have hd_ls: "hd ?ls = header_line b" using block_lines_props(1,2) [OF wfb] by (simp add: bs)
  have last_ls: "last ?ls = answer_line x"
    using block_lines_props(1,5) [OF wfl] by (simp add: x)
  have nl: "\<forall>l \<in> set ?ls. CHR 0x0A \<notin> set l"
    using assms(2) block_lines_props(8) by auto
  have r_ne: "render bs \<noteq> []"
    unfolding render_def using ne last_ls block_lines_props(7) [OF wfl]
    by (intro join_lines_not_Nil) simp_all
  have r_hd: "hd (render bs) = CHR ''Q''"
    unfolding render_def using hd_join_lines [OF ne] hd_ls block_lines_props(3,4) [OF wfb]
    by simp
  have r_last: "last (render bs) = answer_letter x"
    unfolding render_def using last_join_lines [OF ne] last_ls block_lines_props(6,7) [OF wfl]
    by simp
  have "is_letter (answer_letter x)" using wfl by (simp add: wf_block_def)
  then have "\<not> is_space (last (render bs))" by (simp add: r_last is_letter_not_space)
  with r_ne r_hd have "strip (render bs) = render bs"
    by (intro strip_id) (simp_all add: not_space_Q)
  then show ?thesis
    unfolding render_def using split_join_lines [OF ne nl] by simp
qed

lemma parse_render:
  assumes "bs \<noteq> []" "\<forall>b \<in> set bs. wf_block b"
  shows "parse_questions (render bs) = Inr (map question_of bs)"
  unfolding parse_questions_def render_lines [OF assms]
  using parse_loop_blocks [OF assms(2), of "[]" "[]"] by simp

text \<open>
  Claim C3: a completion that consists of exactly ten well-formed blocks parses to ten
  questions, in order: each has the block's header as text, its four option lines as
  options, and as answer the single letter of the answer line, which is what splitting
  that line on \<open>:\<close>, taking the last piece and stripping it gives. The example text of
  the specification parses to the one question it names.
\<close>

theorem ten_blocks_parse_to_ten_questions:
  assumes "length bs = 10" "\<forall>b \<in> set bs. wf_block b"
  shows "parse_questions (render bs) = Inr (map question_of bs) \<and>
         length (map question_of bs) = 10 \<and>
         (\<forall>b \<in> set bs. length (options (question_of b)) = 4 \<and>
                        length (answer (question_of b)) = 1 \<and>
                        answer (question_of b) = strip (last (split CHR '':'' (answer_line b)))) \<and>
         parse_questions example_raw = Inr [example_question]"
proof -
  from assms(1) have ne: "bs \<noteq> []" by auto
  have a: "length (options (question_of b)) = 4 \<and> length (answer (question_of b)) = 1 \<and>
           answer (question_of b) = strip (last (split CHR '':'' (answer_line b)))"
    if "b \<in> set bs" for b
  proof -
    from that assms(2) have wf: "wf_block b" by simp
    then have "extract_answer (answer_line b) = [answer_letter b]"
      unfolding answer_line_def by (intro extract_answer_line) (simp add: wf_block_def)
    with wf show ?thesis by (simp add: question_of_def wf_block_def extract_answer_def)
  qed
  from a have "\<forall>b \<in> set bs. length (options (question_of b)) = 4 \<and>
                        length (answer (question_of b)) = 1 \<and>
                        answer (question_of b) = strip (last (split CHR '':'' (answer_line b)))"
    by blast
  moreover have "length (map question_of bs) = 10" using assms(1) by simp
  ultimately show ?thesis using parse_render [OF ne assms(2)] parse_example by blast
qed

theorem ten_blocks_parse_to_ten_questions_witness:
  "length ten_blocks = 10 \<and> list_all wf_block ten_blocks \<and>
   parse_questions (render ten_blocks) = Inr (map question_of ten_blocks) \<and>
   length (map question_of ten_blocks) = 10 \<and>
   list_all (\<lambda>b. length (options (question_of b)) = 4 \<and>
                  length (answer (question_of b)) = 1 \<and>
                  answer (question_of b) = strip (last (split CHR '':'' (answer_line b))))
     ten_blocks \<and>
   map answer (map question_of ten_blocks) =
     [''a'', ''b'', ''c'', ''d'', ''a'', ''b'', ''c'', ''d'', ''a'', ''b'']"
proof -
  have l: "length ten_blocks = 10" by (simp add: ten_blocks_def)
  have w: "list_all wf_block ten_blocks" by code_simp
  then have w': "\<forall>b \<in> set ten_blocks. wf_block b" by (simp add: list_all_iff)
  have m: "map answer (map question_of ten_blocks) =
     [''a'', ''b'', ''c'', ''d'', ''a'', ''b'', ''c'', ''d'', ''a'', ''b'']"
    by code_simp
  from ten_blocks_parse_to_ten_questions [OF l w'] l w m show ?thesis
    unfolding list_all_iff by blast
qed

end
